theory Spec2Isabelle
  imports Main
begin

section \<open>LSH: a shallow embedding of the read, tokenize, dispatch, launch loop\<close>

text \<open>
  The C program is embedded function by function. Everything the program does to its
  surroundings is explicit:
  \<^item> the process state that the code reads and writes (the unread bytes of standard
    input, the bytes written to standard output and standard error, the working
    directory, \<open>errno\<close>, and the history of the requests made to the operating system and
    the allocator) is the record \<open>world\<close>, passed in and returned updated;
  \<^item> the answers of the operating system and the allocator are not computed by the
    program; they are the fields of the record \<open>os\<close>, functions of the number of requests
    made so far, so that any sequence of answers can be supplied;
  \<^item> a function either returns a value, or ends the process (\<open>exit\<close>), or has its process
    image replaced (\<open>execvp\<close>), or leaves the behaviour defined by C (a write outside an
    allocation, a signed overflow, a read of an array cell that was never written or
    beyond the end of the argument vector): the type \<open>outcome\<close>;
  \<^item> the value of a local \<open>int\<close> that is read before it was assigned is unspecified, not
    undefined, its address having been taken; it is chosen by the system as well;
  \<^item> a loop that need not end (the wait on a child, the prompt loop) is a
    \<^theory_text>\<open>partial_function\<close> into \<open>option\<close>, where \<open>None\<close> means that it never returns.
\<close>

subsection \<open>Outcomes, memory cells, constants of the C library\<close>

datatype fault = OutOfBounds | IntOverflow | UninitRead

datatype 'a outcome =
    Ret 'a
  | ProcExit int
  | ImageReplaced string "string list"
  | Undefined fault

text \<open>A cell of an allocated array: \<open>malloc\<close> and \<open>realloc\<close> leave new cells uninitialised.\<close>

datatype 'a cell = Uninit | Val 'a

text \<open>\<open>stdlib.h\<close>, \<open>limits.h\<close> and \<open>sys/wait.h\<close> on the platforms the program builds on
  (POSIX, 32-bit \<open>int\<close>, 8-byte pointers).\<close>

definition EXIT_SUCCESS :: int where "EXIT_SUCCESS = 0"
definition EXIT_FAILURE :: int where "EXIT_FAILURE = 1"
definition INT_MAX :: nat where "INT_MAX = 2147483647"
definition WUNTRACED :: int where "WUNTRACED = 2"
definition sizeof_char :: nat where "sizeof_char = 1"
definition sizeof_ptr :: nat where "sizeof_ptr = 8"

definition NUL :: char where "NUL = CHR 0x00"
definition newline :: char where "newline = CHR 0x0A"
definition dquote :: char where "dquote = CHR 0x22"

text \<open>The content of an \<open>int status\<close>, and the two macros of \<open>sys/wait.h\<close> that the
  program applies to it. A call of \<open>waitpid\<close> with \<open>WUNTRACED\<close> only stores one of the first
  three; \<open>WOther\<close> is any other value of the \<open>int\<close>, which only a \<open>status\<close> that was never
  assigned can hold.\<close>

datatype wstatus = WExited nat | WSignaled nat | WStopped nat | WOther nat

fun WIFEXITED :: "wstatus \<Rightarrow> bool" where
  "WIFEXITED (WExited c) = True"
| "WIFEXITED (WSignaled s) = False"
| "WIFEXITED (WStopped s) = False"
| "WIFEXITED (WOther v) = False"

fun WIFSIGNALED :: "wstatus \<Rightarrow> bool" where
  "WIFSIGNALED (WExited c) = False"
| "WIFSIGNALED (WSignaled s) = True"
| "WIFSIGNALED (WStopped s) = False"
| "WIFSIGNALED (WOther v) = False"

subsection \<open>The process state and the operating system\<close>

datatype event =
    EvAlloc nat
  | EvChdir string
  | EvFork
  | EvExecvp "string option" "string list"
  | EvWaitpid int int

record world =
  w_stdin :: "char list"
  w_stdout :: "char list"
  w_stderr :: "char list"
  w_cwd :: string
  w_errno :: nat
  w_trace :: "event list"

text \<open>The answers of the system. The first argument of each is the number of requests
  made before this one. \<open>os_alloc t n\<close>: does the allocation of \<open>n\<close> bytes succeed.
  \<open>os_chdir t cwd path\<close>: \<open>errno\<close>, or the new working directory. \<open>os_fork t\<close>: \<open>errno\<close>, or the
  value \<open>fork\<close> returns (0 in the child). \<open>os_execvp t file argv\<close>: \<open>errno\<close>, or \<open>None\<close> when the
  image is replaced. \<open>os_waitpid t pid options\<close>: \<open>errno\<close>, or the status stored.
  \<open>os_unassigned t\<close>: the value that is read from an \<open>int\<close> whose address was taken and that
  was never assigned, when the function that declares it is entered after \<open>t\<close> requests; C
  leaves the value unspecified, so it is for the system to choose.\<close>

record os =
  os_alloc :: "nat \<Rightarrow> nat \<Rightarrow> bool"
  os_chdir :: "nat \<Rightarrow> string \<Rightarrow> string \<Rightarrow> nat + string"
  os_fork :: "nat \<Rightarrow> nat + int"
  os_execvp :: "nat \<Rightarrow> string option \<Rightarrow> string list \<Rightarrow> nat option"
  os_waitpid :: "nat \<Rightarrow> int \<Rightarrow> int \<Rightarrow> nat + wstatus"
  os_unassigned :: "nat \<Rightarrow> wstatus"
  os_strerror :: "nat \<Rightarrow> string"

definition tick :: "world \<Rightarrow> nat" where
  "tick w = length (w_trace w)"

definition log_event :: "event \<Rightarrow> world \<Rightarrow> world" where
  "log_event e w = w\<lparr>w_trace := w_trace w @ [e]\<rparr>"

subsection \<open>The C library calls the program makes\<close>

text \<open>\<open>getchar\<close>: \<open>None\<close> is \<open>EOF\<close>; at the end of the input every further call is \<open>EOF\<close>.\<close>

definition getchar :: "world \<Rightarrow> char option \<times> world" where
  "getchar w = (case w_stdin w of
      [] \<Rightarrow> (None, w)
    | c # cs \<Rightarrow> (Some c, w\<lparr>w_stdin := cs\<rparr>))"

definition print_out :: "string \<Rightarrow> world \<Rightarrow> world" where
  "print_out s w = w\<lparr>w_stdout := w_stdout w @ s\<rparr>"

definition print_err :: "string \<Rightarrow> world \<Rightarrow> world" where
  "print_err s w = w\<lparr>w_stderr := w_stderr w @ s\<rparr>"

text \<open>\<open>perror(s)\<close> writes \<open>s\<close>, a colon and a space, the description of \<open>errno\<close>, a newline.\<close>

definition perror :: "os \<Rightarrow> string \<Rightarrow> world \<Rightarrow> world" where
  "perror sys s w = print_err (s @ '': '' @ os_strerror sys (w_errno w) @ [newline]) w"

text \<open>\<open>malloc(n)\<close>: a fresh array of uninitialised cells, or \<open>None\<close> for the null pointer.
  The array has \<open>count\<close> cells of \<open>width\<close> bytes each.\<close>

definition malloc :: "os \<Rightarrow> nat \<Rightarrow> nat \<Rightarrow> world \<Rightarrow> 'a cell list option \<times> world" where
  "malloc sys count width w =
     (if os_alloc sys (tick w) (count * width)
      then (Some (replicate count Uninit), log_event (EvAlloc (count * width)) w)
      else (None, log_event (EvAlloc (count * width)) w))"

text \<open>\<open>realloc(p, n)\<close>: the cells of \<open>p\<close> that fit are kept, the new ones are
  uninitialised; on failure the null pointer is returned and \<open>p\<close> is untouched.\<close>

definition realloc :: "os \<Rightarrow> 'a cell list \<Rightarrow> nat \<Rightarrow> nat \<Rightarrow> world \<Rightarrow> 'a cell list option \<times> world" where
  "realloc sys p count width w =
     (if os_alloc sys (tick w) (count * width)
      then (Some (take count p @ replicate (count - length p) Uninit),
            log_event (EvAlloc (count * width)) w)
      else (None, log_event (EvAlloc (count * width)) w))"

text \<open>A store \<open>p[i] = v\<close> into an allocated array: defined only inside the allocation.\<close>

definition store :: "'a cell list \<Rightarrow> nat \<Rightarrow> 'a \<Rightarrow> fault + 'a cell list" where
  "store p i v = (if i < length p then Inr (p[i := Val v]) else Inl OutOfBounds)"

subsection \<open>\<open>main.c\<close>: the Line Reader\<close>

definition LSH_RL_BUFSIZE :: nat where "LSH_RL_BUFSIZE = 1024"
definition LSH_TOK_BUFSIZE :: nat where "LSH_TOK_BUFSIZE = 64"
definition LSH_TOK_DELIM :: string where
  "LSH_TOK_DELIM = [CHR '' '', CHR 0x09, CHR 0x0D, CHR 0x0A, CHR 0x07]"

definition alloc_error :: "world \<Rightarrow> world" where
  "alloc_error w = print_err (''lsh: allocation error'' @ [newline]) w"

text \<open>The body of \<open>while (1)\<close> in \<open>lsh_read_line\<close>. \<open>bufsize\<close> and \<open>position\<close> are C \<open>int\<close>s
  that are never negative. The store \<open>buffer[position++] = (char)c\<close> writes at \<open>position\<close>
  and increments it, so the test \<open>position >= bufsize\<close> that follows is on \<open>position + 1\<close>.
  \<open>bufsize += LSH_RL_BUFSIZE\<close> is the one operation that can leave the range of \<open>int\<close>,
  \<open>position\<close> being below \<open>bufsize\<close> when it is incremented; C leaves the behaviour undefined
  there and the function ends with \<open>Undefined IntOverflow\<close>.\<close>

function read_loop ::
  "os \<Rightarrow> nat \<Rightarrow> nat \<Rightarrow> char cell list \<Rightarrow> world \<Rightarrow> char cell list outcome \<times> world" where
  "read_loop sys bufsize position buffer w =
     (case getchar w of
        (None, w1) \<Rightarrow>
          (case store buffer position NUL of
             Inl f \<Rightarrow> (Undefined f, w1)
           | Inr buffer1 \<Rightarrow> (Ret buffer1, w1))
      | (Some c, w1) \<Rightarrow>
          if c = newline then
            (case store buffer position NUL of
               Inl f \<Rightarrow> (Undefined f, w1)
             | Inr buffer1 \<Rightarrow> (Ret buffer1, w1))
          else
            (case store buffer position c of
               Inl f \<Rightarrow> (Undefined f, w1)
             | Inr buffer1 \<Rightarrow>
                 if position + 1 \<ge> bufsize then
                   if bufsize + LSH_RL_BUFSIZE > INT_MAX then (Undefined IntOverflow, w1)
                   else
                     (case realloc sys buffer1 (bufsize + LSH_RL_BUFSIZE) sizeof_char w1 of
                        (None, w2) \<Rightarrow> (ProcExit EXIT_FAILURE, alloc_error w2)
                      | (Some tmp, w2) \<Rightarrow>
                          read_loop sys (bufsize + LSH_RL_BUFSIZE) (position + 1) tmp w2)
                 else read_loop sys bufsize (position + 1) buffer1 w1))"
  by pat_completeness auto

lemma realloc_stdin: "realloc sys p n k w = (r, w') \<Longrightarrow> w_stdin w' = w_stdin w"
  by (auto simp: realloc_def log_event_def split: if_splits)

lemma getchar_Some_stdin: "getchar w = (Some c, w') \<Longrightarrow> w_stdin w = c # w_stdin w'"
  by (auto simp: getchar_def split: list.splits)

termination read_loop
  by (relation "measure (\<lambda>(sys, bufsize, position, buffer, w). length (w_stdin w))")
     (auto dest!: realloc_stdin [OF sym] getchar_Some_stdin [OF sym])

definition lsh_read_line :: "os \<Rightarrow> world \<Rightarrow> char cell list outcome \<times> world" where
  "lsh_read_line sys w =
     (case malloc sys LSH_RL_BUFSIZE sizeof_char w of
        (None, w1) \<Rightarrow> (ProcExit EXIT_FAILURE, alloc_error w1)
      | (Some buffer, w1) \<Rightarrow> read_loop sys LSH_RL_BUFSIZE 0 buffer w1)"

text \<open>The C string that a \<open>char *\<close> to the start of an array denotes: the bytes before the
  first terminator. Reading it is defined only if the terminator is there.\<close>

fun c_str :: "char cell list \<Rightarrow> fault + string" where
  "c_str [] = Inl OutOfBounds"
| "c_str (Uninit # p) = Inl UninitRead"
| "c_str (Val c # p) =
     (if c = NUL then Inr []
      else (case c_str p of Inl f \<Rightarrow> Inl f | Inr s \<Rightarrow> Inr (c # s)))"

subsection \<open>\<open>main.c\<close>: the Tokenizer\<close>

text \<open>\<open>strtok\<close> of the C library, on the bytes of the string. Its hidden state is the text not
  yet scanned, here the last argument and the second component of the result.
  \<open>strtok (Some s) delim save\<close> starts on \<open>s\<close>, \<open>strtok None delim save\<close> goes on where the last
  call stopped: it skips the delimiters, returns \<open>None\<close> at the end of the string, otherwise
  the bytes up to the next delimiter, which it overwrites with a terminator and steps
  over. A token is the text of a part of the line: the program copies no token, and here a
  token is the value of that part.\<close>

definition strtok :: "string option \<Rightarrow> string \<Rightarrow> string \<Rightarrow> string option \<times> string" where
  "strtok str delim save =
     (let s = dropWhile (\<lambda>c. c \<in> set delim) (case str of None \<Rightarrow> save | Some l \<Rightarrow> l)
      in if s = [] then (None, [])
         else (Some (takeWhile (\<lambda>c. c \<notin> set delim) s),
               drop 1 (dropWhile (\<lambda>c. c \<notin> set delim) s)))"

text \<open>The \<open>while (token != NULL)\<close> loop of \<open>lsh_split_line\<close> and the store of the sentinel
  after it. \<open>token\<close> is the result of the last call of \<open>strtok\<close> and \<open>save\<close> the text it
  left. As in the Line Reader, the test after \<open>tokens[position++] = token\<close> is on
  \<open>position + 1\<close>, and \<open>bufsize += LSH_TOK_BUFSIZE\<close> is the one operation that can leave
  the range of \<open>int\<close>.\<close>

function split_loop ::
  "os \<Rightarrow> nat \<Rightarrow> nat \<Rightarrow> string option cell list \<Rightarrow> string option \<Rightarrow> string \<Rightarrow> world
     \<Rightarrow> string option cell list outcome \<times> world" where
  "split_loop sys bufsize position tokens token save w =
     (case token of
        None \<Rightarrow>
          (case store tokens position None of
             Inl f \<Rightarrow> (Undefined f, w)
           | Inr tokens1 \<Rightarrow> (Ret tokens1, w))
      | Some tok \<Rightarrow>
          (case store tokens position (Some tok) of
             Inl f \<Rightarrow> (Undefined f, w)
           | Inr tokens1 \<Rightarrow>
               if position + 1 \<ge> bufsize then
                 if bufsize + LSH_TOK_BUFSIZE > INT_MAX then (Undefined IntOverflow, w)
                 else
                   (case realloc sys tokens1 (bufsize + LSH_TOK_BUFSIZE) sizeof_ptr w of
                      (None, w1) \<Rightarrow> (ProcExit EXIT_FAILURE, alloc_error w1)
                    | (Some tmp, w1) \<Rightarrow>
                        (case strtok None LSH_TOK_DELIM save of
                           (token1, save1) \<Rightarrow>
                             split_loop sys (bufsize + LSH_TOK_BUFSIZE) (position + 1) tmp
                               token1 save1 w1))
               else
                 (case strtok None LSH_TOK_DELIM save of
                    (token1, save1) \<Rightarrow>
                      split_loop sys bufsize (position + 1) tokens1 token1 save1 w)))"
  by pat_completeness auto

lemma strtok_shorter:
  "strtok None delim save = (Some tok, save1) \<Longrightarrow> length save1 < length save"
proof -
  assume a: "strtok None delim save = (Some tok, save1)"
  define s where "s = dropWhile (\<lambda>c. c \<in> set delim) save"
  from a have ne: "s \<noteq> []" and s1: "save1 = drop 1 (dropWhile (\<lambda>c. c \<notin> set delim) s)"
    by (auto simp: strtok_def s_def Let_def split: if_splits)
  have "length (dropWhile (\<lambda>c. c \<notin> set delim) s) \<le> length s"
    by (rule length_dropWhile_le)
  with ne s1 have "length save1 < length s"
    by (cases s) auto
  moreover have "length s \<le> length save"
    by (simp add: s_def length_dropWhile_le)
  ultimately show ?thesis by simp
qed

lemma strtok_None_save: "strtok str delim save = (None, save1) \<Longrightarrow> save1 = []"
  by (auto simp: strtok_def Let_def split: if_splits)

text \<open>The loop ends: with a token in hand the text still to scan gets shorter at every
  turn, and without one the loop is left.\<close>

termination split_loop
  by (relation "measure (\<lambda>(sys, bufsize, position, tokens, token, save, w).
        (case token of None \<Rightarrow> 0 | Some t \<Rightarrow> 1) + 2 * length save)")
     (auto split: option.splits dest!: strtok_shorter [OF sym] strtok_None_save [OF sym])

definition lsh_split_line ::
  "os \<Rightarrow> string \<Rightarrow> world \<Rightarrow> string option cell list outcome \<times> world" where
  "lsh_split_line sys line w =
     (case malloc sys LSH_TOK_BUFSIZE sizeof_ptr w of
        (None, w1) \<Rightarrow> (ProcExit EXIT_FAILURE, alloc_error w1)
      | (Some tokens, w1) \<Rightarrow>
          (case strtok (Some line) LSH_TOK_DELIM [] of
             (token, save) \<Rightarrow> split_loop sys LSH_TOK_BUFSIZE 0 tokens token save w1))"

text \<open>The argument vector that a \<open>char **\<close> to the start of an array denotes: the entries
  before the first null pointer.\<close>

fun argv_of :: "string option cell list \<Rightarrow> fault + string list" where
  "argv_of [] = Inl OutOfBounds"
| "argv_of (Uninit # p) = Inl UninitRead"
| "argv_of (Val None # p) = Inr []"
| "argv_of (Val (Some a) # p) =
     (case argv_of p of Inl f \<Rightarrow> Inl f | Inr as \<Rightarrow> Inr (a # as))"

text \<open>\<open>args[i]\<close> for an argument vector: an argument, the null sentinel right after the
  last one, and nothing defined beyond it.\<close>

definition arg_at :: "string list \<Rightarrow> nat \<Rightarrow> fault + string option" where
  "arg_at args i =
     (if i < length args then Inr (Some (args ! i))
      else if i = length args then Inr None
      else Inl OutOfBounds)"

subsection \<open>\<open>shell_funcs.c\<close>: the system calls\<close>

text \<open>Each call asks the system once and is recorded. A failed call returns \<open>-1\<close> and sets
  \<open>errno\<close>.\<close>

definition chdir :: "os \<Rightarrow> string \<Rightarrow> world \<Rightarrow> int \<times> world" where
  "chdir sys path w =
     (case os_chdir sys (tick w) (w_cwd w) path of
        Inl e \<Rightarrow> (- 1, (log_event (EvChdir path) w)\<lparr>w_errno := e\<rparr>)
      | Inr dir \<Rightarrow> (0, (log_event (EvChdir path) w)\<lparr>w_cwd := dir\<rparr>))"

definition fork :: "os \<Rightarrow> world \<Rightarrow> int \<times> world" where
  "fork sys w =
     (case os_fork sys (tick w) of
        Inl e \<Rightarrow> (- 1, (log_event EvFork w)\<lparr>w_errno := e\<rparr>)
      | Inr pid \<Rightarrow> (pid, log_event EvFork w))"

text \<open>\<open>execvp\<close> returns only when it fails; \<open>None\<close> stands for the call that does not
  return, the image of the process being replaced.\<close>

definition execvp :: "os \<Rightarrow> string option \<Rightarrow> string list \<Rightarrow> world \<Rightarrow> int option \<times> world" where
  "execvp sys file argv w =
     (case os_execvp sys (tick w) file argv of
        Some e \<Rightarrow> (Some (- 1), (log_event (EvExecvp file argv) w)\<lparr>w_errno := e\<rparr>)
      | None \<Rightarrow> (None, log_event (EvExecvp file argv) w))"

text \<open>\<open>waitpid(pid, &status, options)\<close>: the new content of \<open>status\<close>, which a failed call
  leaves as it was. The program ignores the value returned.\<close>

definition waitpid :: "os \<Rightarrow> int \<Rightarrow> wstatus \<Rightarrow> int \<Rightarrow> world \<Rightarrow> wstatus \<times> world" where
  "waitpid sys pid status options w =
     (case os_waitpid sys (tick w) pid options of
        Inl e \<Rightarrow> (status, (log_event (EvWaitpid pid options) w)\<lparr>w_errno := e\<rparr>)
      | Inr s \<Rightarrow> (s, log_event (EvWaitpid pid options) w))"

text \<open>\<open>strcmp\<close>: zero for equal strings, otherwise the sign of the comparison, as
  unsigned bytes, of the first two bytes that differ; a string that ends first is the
  smaller.\<close>

fun strcmp :: "string \<Rightarrow> string \<Rightarrow> int" where
  "strcmp [] [] = 0"
| "strcmp [] (b # bs) = - 1"
| "strcmp (a # as) [] = 1"
| "strcmp (a # as) (b # bs) =
     (if a = b then strcmp as bs
      else if (of_char a :: nat) < of_char b then - 1 else 1)"

subsection \<open>\<open>shell_funcs.c\<close>: the builtins\<close>

type_synonym handler = "os \<Rightarrow> string list \<Rightarrow> world \<Rightarrow> int outcome \<times> world"

definition builtin_str :: "string list" where
  "builtin_str = [''cd'', ''help'', ''exit'']"

definition lsh_num_builtins :: nat where
  "lsh_num_builtins = length builtin_str"

definition lsh_cd :: handler where
  "lsh_cd sys args w =
     (case arg_at args 1 of
        Inl f \<Rightarrow> (Undefined f, w)
      | Inr None \<Rightarrow>
          (Ret 1, print_err (''lsh: expected argument to '' @ [dquote] @ ''cd'' @ [dquote, newline]) w)
      | Inr (Some path) \<Rightarrow>
          (case chdir sys path w of
             (r, w1) \<Rightarrow> if r \<noteq> 0 then (Ret 1, perror sys ''lsh'' w1) else (Ret 1, w1)))"

text \<open>The \<open>for\<close> loop of \<open>lsh_help\<close>, from index \<open>i\<close>.\<close>

function help_loop :: "nat \<Rightarrow> world \<Rightarrow> world" where
  "help_loop i w =
     (if i < lsh_num_builtins
      then help_loop (i + 1) (print_out ('' '' @ builtin_str ! i @ [newline]) w)
      else w)"
  by pat_completeness auto
termination
  by (relation "measure (\<lambda>(i, w). lsh_num_builtins - i)") auto

definition lsh_help :: handler where
  "lsh_help sys args w =
     (let w1 = print_out (''Omer Hayat'' @ [CHR 0x27] @ ''s LSH'' @ [newline]) w;
          w2 = print_out (''Type program names and arguments, and hit enter.'' @ [newline]) w1;
          w3 = print_out (''The following are built-in:'' @ [newline]) w2;
          w4 = help_loop 0 w3;
          w5 = print_out (''Use the man command for information on other programs.'' @ [newline]) w4
      in (Ret 1, w5))"

definition lsh_exit :: handler where
  "lsh_exit sys args w = (Ret 0, w)"

definition builtin_func :: "handler list" where
  "builtin_func = [lsh_cd, lsh_help, lsh_exit]"

subsection \<open>\<open>shell_funcs.c\<close>: the Process Launcher\<close>

text \<open>The \<open>do ... while\<close> loop of the parent branch, from the content \<open>status\<close> of the local
  variable. The loop tests the variable after every call, whether or not the call stored
  into it. The loop may never end: \<open>None\<close>.\<close>

partial_function (option) wait_loop ::
  "os \<Rightarrow> int \<Rightarrow> wstatus \<Rightarrow> world \<Rightarrow> (wstatus \<times> world) option" where
  "wait_loop sys pid status w =
     (case waitpid sys pid status WUNTRACED w of
        (status1, w1) \<Rightarrow>
          if \<not> WIFEXITED status1 \<and> \<not> WIFSIGNALED status1 then wait_loop sys pid status1 w1
          else Some (status1, w1))"

text \<open>\<open>lsh_launch\<close>. Its local \<open>status\<close> is declared without an initialiser, so the wait loop
  starts from the unspecified value \<open>os_unassigned\<close>.\<close>

definition lsh_launch :: "os \<Rightarrow> string list \<Rightarrow> world \<Rightarrow> (int outcome \<times> world) option" where
  "lsh_launch sys args w =
     (case fork sys w of
        (pid, w1) \<Rightarrow>
          if pid = 0 then
            (case arg_at args 0 of
               Inl f \<Rightarrow> Some (Undefined f, w1)
             | Inr file \<Rightarrow>
                 (case execvp sys file args w1 of
                    (None, w2) \<Rightarrow> Some (ImageReplaced (case file of None \<Rightarrow> [] | Some a \<Rightarrow> a) args, w2)
                  | (Some r, w2) \<Rightarrow>
                      Some (ProcExit EXIT_FAILURE,
                            if r = - 1 then perror sys ''lsh'' w2 else w2)))
          else if pid < 0 then Some (Ret 1, perror sys ''lsh'' w1)
          else
            (case wait_loop sys pid (os_unassigned sys (tick w)) w1 of
               None \<Rightarrow> None
             | Some (status1, w2) \<Rightarrow> Some (Ret 1, w2)))"

subsection \<open>\<open>shell_funcs.c\<close>: the Dispatcher\<close>

text \<open>The \<open>for\<close> loop of \<open>lsh_execute\<close>, from index \<open>i\<close>, and the call of the launcher after
  it. \<open>a0\<close> is \<open>args[0]\<close>, which is not null here.\<close>

function exec_loop ::
  "os \<Rightarrow> string \<Rightarrow> string list \<Rightarrow> nat \<Rightarrow> world \<Rightarrow> (int outcome \<times> world) option" where
  "exec_loop sys a0 args i w =
     (if i < lsh_num_builtins then
        if strcmp a0 (builtin_str ! i) = 0 then Some ((builtin_func ! i) sys args w)
        else exec_loop sys a0 args (i + 1) w
      else lsh_launch sys args w)"
  by pat_completeness auto
termination
  by (relation "measure (\<lambda>(sys, a0, args, i, w). lsh_num_builtins - i)") auto

definition lsh_execute :: "os \<Rightarrow> string list \<Rightarrow> world \<Rightarrow> (int outcome \<times> world) option" where
  "lsh_execute sys args w =
     (case arg_at args 0 of
        Inl f \<Rightarrow> Some (Undefined f, w)
      | Inr None \<Rightarrow> Some (Ret 1, w)
      | Inr (Some a0) \<Rightarrow> exec_loop sys a0 args 0 w)"

subsection \<open>\<open>main.c\<close>: the Loop Controller\<close>

text \<open>One turn of the \<open>do ... while\<close> loop of \<open>lsh_loop\<close>, up to the status, in two
  parts. First the prompt, the line and the argument vector; \<open>line\<close> is passed on as the C
  string it points to and \<open>args\<close> as the vector it points to. Then the dispatch. The two
  calls of \<open>free\<close> that follow change nothing that the program can observe and are left
  out.\<close>

definition read_command :: "os \<Rightarrow> world \<Rightarrow> string list outcome \<times> world" where
  "read_command sys w =
     (case lsh_read_line sys (print_out ''> '' w) of
        (ProcExit c, w1) \<Rightarrow> (ProcExit c, w1)
      | (ImageReplaced f a, w1) \<Rightarrow> (ImageReplaced f a, w1)
      | (Undefined f, w1) \<Rightarrow> (Undefined f, w1)
      | (Ret buffer, w1) \<Rightarrow>
          (case c_str buffer of
             Inl f \<Rightarrow> (Undefined f, w1)
           | Inr line \<Rightarrow>
               (case lsh_split_line sys line w1 of
                  (ProcExit c, w2) \<Rightarrow> (ProcExit c, w2)
                | (ImageReplaced f a, w2) \<Rightarrow> (ImageReplaced f a, w2)
                | (Undefined f, w2) \<Rightarrow> (Undefined f, w2)
                | (Ret tokens, w2) \<Rightarrow>
                    (case argv_of tokens of
                       Inl f \<Rightarrow> (Undefined f, w2)
                     | Inr args \<Rightarrow> (Ret args, w2)))))"

definition loop_body :: "os \<Rightarrow> world \<Rightarrow> (int outcome \<times> world) option" where
  "loop_body sys w =
     (case read_command sys w of
        (ProcExit c, w1) \<Rightarrow> Some (ProcExit c, w1)
      | (ImageReplaced f a, w1) \<Rightarrow> Some (ImageReplaced f a, w1)
      | (Undefined f, w1) \<Rightarrow> Some (Undefined f, w1)
      | (Ret args, w1) \<Rightarrow> lsh_execute sys args w1)"

partial_function (option) lsh_loop :: "os \<Rightarrow> world \<Rightarrow> (unit outcome \<times> world) option" where
  "lsh_loop sys w =
     (case loop_body sys w of
        None \<Rightarrow> None
      | Some (Ret status, w1) \<Rightarrow> if status \<noteq> 0 then lsh_loop sys w1 else Some (Ret (), w1)
      | Some (ProcExit c, w1) \<Rightarrow> Some (ProcExit c, w1)
      | Some (ImageReplaced f a, w1) \<Rightarrow> Some (ImageReplaced f a, w1)
      | Some (Undefined f, w1) \<Rightarrow> Some (Undefined f, w1))"

text \<open>\<open>main\<close>: the value it returns is the exit code of the process.\<close>

definition main :: "os \<Rightarrow> world \<Rightarrow> (int outcome \<times> world) option" where
  "main sys w =
     (case lsh_loop sys w of
        None \<Rightarrow> None
      | Some (Ret u, w1) \<Rightarrow> Some (Ret EXIT_SUCCESS, w1)
      | Some (ProcExit c, w1) \<Rightarrow> Some (ProcExit c, w1)
      | Some (ImageReplaced f a, w1) \<Rightarrow> Some (ImageReplaced f a, w1)
      | Some (Undefined f, w1) \<Rightarrow> Some (Undefined f, w1))"

text \<open>The exit code with which the process ends, when it ends by returning from \<open>main\<close> or
  by \<open>exit\<close>.\<close>

fun exit_code :: "int outcome \<Rightarrow> int option" where
  "exit_code (Ret c) = Some c"
| "exit_code (ProcExit c) = Some c"
| "exit_code (ImageReplaced f a) = None"
| "exit_code (Undefined f) = None"

subsection \<open>The Tokenizer as the specification words it\<close>

text \<open>The specification's account of the Tokenizer, independent of \<open>strtok\<close>: the line is
  cut at every delimiter (space, tab, carriage return, newline, bell), which gives the
  fields between delimiters, and the empty fields (between two consecutive delimiters,
  before a leading and after a trailing one) are dropped.\<close>

definition spec_delim :: "char \<Rightarrow> bool" where
  "spec_delim c =
     (c = CHR '' '' \<or> c = CHR 0x09 \<or> c = CHR 0x0D \<or> c = CHR 0x0A \<or> c = CHR 0x07)"

fun line_fields :: "(char \<Rightarrow> bool) \<Rightarrow> string \<Rightarrow> string list" where
  "line_fields d [] = [[]]"
| "line_fields d (c # cs) =
     (if d c then [] # line_fields d cs
      else (case line_fields d cs of [] \<Rightarrow> [[c]] | f # fs \<Rightarrow> (c # f) # fs))"

definition spec_tokens :: "string \<Rightarrow> string list" where
  "spec_tokens line = filter (\<lambda>f. f \<noteq> []) (line_fields spec_delim line)"

text \<open>Re-joining entries with single spaces.\<close>

fun join_sp :: "string list \<Rightarrow> string" where
  "join_sp [] = []"
| "join_sp [w] = w"
| "join_sp (w # v # ws) = w @ '' '' @ join_sp (v # ws)"

text \<open>A word is a non-empty string without a delimiter, a gap a non-empty string of
  delimiters. \<open>weave ws gs\<close> is the line made of the words \<open>ws\<close> with the gaps \<open>gs\<close> between
  them, one gap between two consecutive words.\<close>

definition is_word :: "string \<Rightarrow> bool" where
  "is_word w = (w \<noteq> [] \<and> list_all (\<lambda>c. \<not> spec_delim c) w)"

definition is_gap :: "string \<Rightarrow> bool" where
  "is_gap g = (g \<noteq> [] \<and> list_all spec_delim g)"

fun weave :: "string list \<Rightarrow> string list \<Rightarrow> string" where
  "weave [] gs = []"
| "weave [w] gs = w"
| "weave (w # v # ws) [] = w @ weave (v # ws) []"
| "weave (w # v # ws) (g # gs) = w @ g @ weave (v # ws) gs"

text \<open>The words of the round-trip property as the specification words it: the
  whitespace-separated non-empty words of a line. Whitespace is what \<open>isspace\<close> of \<open>ctype.h\<close>
  accepts in the C locale: space, tab, newline, vertical tab, form feed and carriage
  return.\<close>

definition spec_whitespace :: "char \<Rightarrow> bool" where
  "spec_whitespace c =
     (c = CHR '' '' \<or> c = CHR 0x09 \<or> c = CHR 0x0A \<or> c = CHR 0x0B \<or> c = CHR 0x0C \<or> c = CHR 0x0D)"

definition spec_words :: "string \<Rightarrow> string list" where
  "spec_words line = filter (\<lambda>f. f \<noteq> []) (line_fields spec_whitespace line)"

text \<open>The argument vector that \<open>lsh_split_line\<close> hands to its caller, when it returns one.\<close>

definition split_args :: "os \<Rightarrow> string \<Rightarrow> world \<Rightarrow> string list option" where
  "split_args sys line w =
     (case fst (lsh_split_line sys line w) of
        Ret tokens \<Rightarrow> (case argv_of tokens of Inl f \<Rightarrow> None | Inr args \<Rightarrow> Some args)
      | ProcExit c \<Rightarrow> None
      | ImageReplaced f a \<Rightarrow> None
      | Undefined f \<Rightarrow> None)"

subsection \<open>Two systems and a world to run the program in\<close>

text \<open>A system that refuses every request, and one that grants every request: every
  allocation succeeds, every directory exists, \<open>fork\<close> returns the child's process id 7 in
  the parent, and the child is reported stopped once and then exited with code 42. On the
  first an unassigned \<open>int\<close> reads as 0, which is the status of a child that exited with
  code 0; on the second it reads as a value that is no status of a child.\<close>

definition os_refuse :: os where
  "os_refuse = \<lparr>os_alloc = (\<lambda>t n. False), os_chdir = (\<lambda>t cwd path. Inl 2),
     os_fork = (\<lambda>t. Inl 11), os_execvp = (\<lambda>t file argv. Some 2),
     os_waitpid = (\<lambda>t pid opts. Inl 10), os_unassigned = (\<lambda>t. WExited 0),
     os_strerror = (\<lambda>e. ''No such file or directory'')\<rparr>"

definition os_grant :: os where
  "os_grant = \<lparr>os_alloc = (\<lambda>t n. True), os_chdir = (\<lambda>t cwd path. Inr path),
     os_fork = (\<lambda>t. Inr 7), os_execvp = (\<lambda>t file argv. None),
     os_waitpid = (\<lambda>t pid opts. Inr (if t = 1 then WStopped 19 else WExited 42)),
     os_unassigned = (\<lambda>t. WOther 65535),
     os_strerror = (\<lambda>e. ''Unknown error'')\<rparr>"

definition world0 :: world where
  "world0 = \<lparr>w_stdin = [], w_stdout = [], w_stderr = [], w_cwd = ''/'', w_errno = 0,
     w_trace = []\<rparr>"

text \<open>The granting system with a child that is only ever reported stopped, and the
  granting system on which every \<open>waitpid\<close> fails with \<open>ECHILD\<close> (as it does when the process
  ignores \<open>SIGCHLD\<close>) and an unassigned \<open>int\<close> reads as 0.\<close>

definition os_stopped :: os where
  "os_stopped = os_grant\<lparr>os_waitpid := (\<lambda>t pid opts. Inr (WStopped 19))\<rparr>"

definition ECHILD :: nat where "ECHILD = 10"

definition os_nochild :: os where
  "os_nochild = os_grant\<lparr>os_waitpid := (\<lambda>t pid opts. Inl ECHILD),
     os_unassigned := (\<lambda>t. WExited 0)\<rparr>"

text \<open>The granting system with memory for the first allocation only, and the granting
  system as a forked child sees it: \<open>fork\<close> has returned 0 and \<open>execvp\<close> finds no program
  (\<open>ENOENT\<close>).\<close>

definition os_once :: os where
  "os_once = os_grant\<lparr>os_alloc := (\<lambda>t n. t = 0)\<rparr>"

definition os_child :: os where
  "os_child = os_grant\<lparr>os_fork := (\<lambda>t. Inr 0), os_execvp := (\<lambda>t prog argv. Some 2)\<rparr>"

subsection \<open>Predicates used in the proofs\<close>

text \<open>What holds when the wait loop, started with \<open>status\<close> in the world \<open>w\<close>, has returned \<open>y\<close>
  after \<open>n + 1\<close> calls: either the last call reported that the child exited or was killed by
  a signal and no call before it did, or the only call failed and \<open>status\<close>, as it was before
  the loop, reads as exited or killed.\<close>

definition wait_post :: "os \<Rightarrow> int \<Rightarrow> wstatus \<Rightarrow> world \<Rightarrow> wstatus \<times> world \<Rightarrow> nat \<Rightarrow> bool" where
  "wait_post sys pid status w y n =
     (w_trace (snd y) = w_trace w @ replicate (Suc n) (EvWaitpid pid WUNTRACED)
      \<and> ((os_waitpid sys (tick w + n) pid WUNTRACED = Inr (fst y)
           \<and> (WIFEXITED (fst y) \<or> WIFSIGNALED (fst y))
           \<and> (\<forall>k<n. \<forall>s'. os_waitpid sys (tick w + k) pid WUNTRACED = Inr s' \<longrightarrow>
                  \<not> WIFEXITED s' \<and> \<not> WIFSIGNALED s'))
         \<or> (n = 0 \<and> (\<exists>e. os_waitpid sys (tick w) pid WUNTRACED = Inl e)
             \<and> fst y = status \<and> (WIFEXITED status \<or> WIFSIGNALED status))))"

text \<open>The state \<open>w'\<close> differs from \<open>w\<close> at most in standard input and by allocations added to
  the history of requests.\<close>

definition alloc_only :: "world \<Rightarrow> world \<Rightarrow> bool" where
  "alloc_only w w' =
     (w_stdout w' = w_stdout w \<and> w_stderr w' = w_stderr w \<and> w_cwd w' = w_cwd w
      \<and> w_errno w' = w_errno w \<and> (\<exists>ns. w_trace w' = w_trace w @ map EvAlloc ns))"

text \<open>The ways a process of the program can end other than by a return: with the failure
  code, after a failed allocation or in a forked child; replaced, in a forked child; or
  outside the behaviour C defines.\<close>

definition exit_shape :: "os \<Rightarrow> 'a outcome \<Rightarrow> bool" where
  "exit_shape sys out =
     (case out of
        Ret x \<Rightarrow> True
      | ProcExit c \<Rightarrow> c = EXIT_FAILURE \<and> ((\<exists>t n. \<not> os_alloc sys t n) \<or> (\<exists>t. os_fork sys t = Inr 0))
      | ImageReplaced f a \<Rightarrow> (\<exists>t. os_fork sys t = Inr 0)
      | Undefined f \<Rightarrow> True)"

text \<open>A request whose refusal ends the process: an allocation that fails, and an
  \<open>execvp\<close> that fails. \<open>fatal sys t ev\<close>: the request \<open>ev\<close>, made after \<open>t\<close> requests, is one of
  these.\<close>

definition fatal :: "os \<Rightarrow> nat \<Rightarrow> event \<Rightarrow> bool" where
  "fatal sys t ev =
     (case ev of
        EvAlloc n \<Rightarrow> \<not> os_alloc sys t n
      | EvChdir path \<Rightarrow> False
      | EvFork \<Rightarrow> False
      | EvExecvp prog argv \<Rightarrow> os_execvp sys t prog argv \<noteq> None
      | EvWaitpid pid options \<Rightarrow> False)"

text \<open>The requests \<open>evs\<close> made on the way from \<open>w\<close> to \<open>w'\<close>, where \<open>fin\<close> says whether that way
  ended in \<open>exit(EXIT_FAILURE)\<close>: a fatal request is the last one and ends the process so;
  the process ends so only right after a fatal request; and \<open>execvp\<close> is requested only
  right after a \<open>fork\<close> that returned 0, that is, in the child.\<close>

definition run_inv :: "os \<Rightarrow> world \<Rightarrow> world \<Rightarrow> bool \<Rightarrow> bool" where
  "run_inv sys w w' fin =
     (\<exists>evs. w_trace w' = w_trace w @ evs
        \<and> (\<forall>j<length evs. fatal sys (tick w + j) (evs ! j) \<longrightarrow> fin \<and> Suc j = length evs)
        \<and> (fin \<longrightarrow> evs \<noteq> [] \<and> fatal sys (tick w + length evs - 1) (last evs))
        \<and> (\<forall>j<length evs. \<forall>prog argv. evs ! j = EvExecvp prog argv \<longrightarrow>
              0 < j \<and> evs ! (j - 1) = EvFork \<and> os_fork sys (tick w + j - 1) = Inr 0))"

definition run_ok :: "os \<Rightarrow> world \<Rightarrow> 'a outcome \<times> world \<Rightarrow> bool" where
  "run_ok sys w r = run_inv sys w (snd r) (fst r = ProcExit EXIT_FAILURE)"

section \<open>Properties\<close>

declare read_loop.simps [simp del] split_loop.simps [simp del] exec_loop.simps [simp del]
  help_loop.simps [simp del]

subsection \<open>The Dispatcher and the builtins\<close>

lemma strcmp_eq0: "strcmp a b = 0 \<longleftrightarrow> a = b"
  by (induction a b rule: strcmp.induct) auto

text \<open>The scan of the builtin table, unrolled from its end.\<close>

lemma exec_loop_3: "exec_loop sys a0 args (Suc (Suc (Suc 0))) w = lsh_launch sys args w"
  by (subst exec_loop.simps) (simp add: lsh_num_builtins_def builtin_str_def)

lemma exec_loop_2:
  "exec_loop sys a0 args (Suc (Suc 0)) w =
     (if a0 = ''exit'' then Some (lsh_exit sys args w) else lsh_launch sys args w)"
  by (subst exec_loop.simps)
     (simp add: lsh_num_builtins_def builtin_str_def builtin_func_def strcmp_eq0 exec_loop_3)

lemma exec_loop_1:
  "exec_loop sys a0 args (Suc 0) w =
     (if a0 = ''help'' then Some (lsh_help sys args w)
      else if a0 = ''exit'' then Some (lsh_exit sys args w)
      else lsh_launch sys args w)"
  by (subst exec_loop.simps)
     (simp add: lsh_num_builtins_def builtin_str_def builtin_func_def strcmp_eq0 exec_loop_2)

lemma exec_loop_0:
  "exec_loop sys a0 args 0 w =
     (if a0 = ''cd'' then Some (lsh_cd sys args w)
      else if a0 = ''help'' then Some (lsh_help sys args w)
      else if a0 = ''exit'' then Some (lsh_exit sys args w)
      else lsh_launch sys args w)"
  by (subst exec_loop.simps)
     (simp add: lsh_num_builtins_def builtin_str_def builtin_func_def strcmp_eq0 exec_loop_1)

lemma lsh_execute_cases:
  "lsh_execute sys args w =
     (case args of
        [] \<Rightarrow> Some (Ret 1, w)
      | a0 # rest \<Rightarrow>
          if a0 = ''cd'' then Some (lsh_cd sys args w)
          else if a0 = ''help'' then Some (lsh_help sys args w)
          else if a0 = ''exit'' then Some (lsh_exit sys args w)
          else lsh_launch sys args w)"
  by (cases args) (simp_all add: lsh_execute_def arg_at_def exec_loop_0)

text \<open>Claim C9. For every argument vector whose first element is \<open>exit\<close>, whatever follows
  it, \<open>lsh_execute\<close> returns what \<open>lsh_exit\<close> returns on that vector; \<open>lsh_exit\<close> returns 0 and
  leaves the whole process state as it was (no output, no request to the system), and its
  result is the same for every vector, the empty one included: it reads nothing from it.\<close>

theorem lsh_exit_ignores_arguments:
  "lsh_execute sys (''exit'' # rest) w = Some (lsh_exit sys (''exit'' # rest) w)
   \<and> lsh_exit sys args w = (Ret 0, w)
   \<and> lsh_exit sys args w = lsh_exit sys [] w"
  by (simp add: lsh_execute_cases lsh_exit_def)

theorem lsh_exit_ignores_arguments_witness:
  "lsh_execute os_refuse [''exit'', ''now'', ''please''] world0 = Some (Ret 0, world0)"
  using lsh_exit_ignores_arguments
    [of os_refuse "[''now'', ''please'']" world0 "[''exit'', ''now'', ''please'']"]
  by simp

text \<open>Claim C5. Called with no second argument, \<open>lsh_cd\<close> appends exactly the one usage
  message to the error stream and changes nothing else: the working directory is the same
  and no request is made to the system. Called with a second argument that the system
  refuses, it appends \<open>perror\<close>'s line for the error the system gave (the only other changes
  being \<open>errno\<close> and the record of the request). Called on any vector that has a first
  element, it returns 1.\<close>

theorem lsh_cd_reports_errors:
  "lsh_cd sys [a0] w =
     (Ret 1, w\<lparr>w_stderr := w_stderr w @
        ''lsh: expected argument to '' @ [dquote] @ ''cd'' @ [dquote, newline]\<rparr>)
   \<and> (os_chdir sys (tick w) (w_cwd w) path = Inl e \<longrightarrow>
        lsh_cd sys (a0 # path # rest) w =
          (Ret 1, w\<lparr>w_stderr := w_stderr w @ ''lsh: '' @ os_strerror sys e @ [newline],
                     w_errno := e, w_trace := w_trace w @ [EvChdir path]\<rparr>))
   \<and> (args \<noteq> [] \<longrightarrow> fst (lsh_cd sys args w) = Ret 1)"
proof (intro conjI impI)
  show "lsh_cd sys [a0] w =
     (Ret 1, w\<lparr>w_stderr := w_stderr w @
        ''lsh: expected argument to '' @ [dquote] @ ''cd'' @ [dquote, newline]\<rparr>)"
    by (simp add: lsh_cd_def arg_at_def print_err_def)
next
  assume "os_chdir sys (tick w) (w_cwd w) path = Inl e"
  then show "lsh_cd sys (a0 # path # rest) w =
          (Ret 1, w\<lparr>w_stderr := w_stderr w @ ''lsh: '' @ os_strerror sys e @ [newline],
                     w_errno := e, w_trace := w_trace w @ [EvChdir path]\<rparr>)"
    by (simp add: lsh_cd_def arg_at_def chdir_def perror_def print_err_def log_event_def)
next
  assume "args \<noteq> []"
  then have "arg_at args 1 \<noteq> Inl OutOfBounds"
    by (cases args) (auto simp: arg_at_def)
  then show "fst (lsh_cd sys args w) = Ret 1"
    by (auto simp: lsh_cd_def arg_at_def split: sum.splits option.splits prod.splits if_splits)
qed

theorem lsh_cd_reports_errors_witness:
  "os_chdir os_refuse (tick world0) (w_cwd world0) ''/nowhere'' = Inl 2
   \<and> lsh_cd os_refuse [''cd'', ''/nowhere''] world0 =
       (Ret 1, world0\<lparr>w_stderr := ''lsh: No such file or directory'' @ [newline],
                       w_errno := 2, w_trace := [EvChdir ''/nowhere'']\<rparr>)
   \<and> [''cd'', ''/nowhere''] \<noteq> []
   \<and> fst (lsh_cd os_refuse [''cd'', ''/nowhere''] world0) = Ret 1"
  using lsh_cd_reports_errors
    [of os_refuse "''cd''" world0 "''/nowhere''" 2 "[]" "[''cd'', ''/nowhere'']"]
  by (simp add: os_refuse_def world0_def)

text \<open>Claim C10. When \<open>lsh_cd\<close> has a second argument and the system grants the change,
  the result is 1 and the process state differs from the one before only in the working
  directory (and in the record that the request was made): nothing is written to
  standard output or to standard error.\<close>

theorem lsh_cd_success_is_silent:
  "os_chdir sys (tick w) (w_cwd w) path = Inr dir \<Longrightarrow>
     lsh_cd sys (a0 # path # rest) w =
       (Ret 1, w\<lparr>w_cwd := dir, w_trace := w_trace w @ [EvChdir path]\<rparr>)
     \<and> w_stdout (snd (lsh_cd sys (a0 # path # rest) w)) = w_stdout w
     \<and> w_stderr (snd (lsh_cd sys (a0 # path # rest) w)) = w_stderr w"
  by (simp add: lsh_cd_def arg_at_def chdir_def log_event_def)

theorem lsh_cd_success_is_silent_witness:
  "os_chdir os_grant (tick world0) (w_cwd world0) ''/tmp'' = Inr ''/tmp''
   \<and> lsh_cd os_grant [''cd'', ''/tmp''] world0 =
       (Ret 1, world0\<lparr>w_cwd := ''/tmp'', w_trace := [EvChdir ''/tmp'']\<rparr>)
   \<and> w_stdout (snd (lsh_cd os_grant [''cd'', ''/tmp''] world0)) = []
   \<and> w_stderr (snd (lsh_cd os_grant [''cd'', ''/tmp''] world0)) = []"
  using lsh_cd_success_is_silent [of os_grant world0 "''/tmp''" "''/tmp''" "''cd''" "[]"]
  by (simp add: os_grant_def world0_def)

subsection \<open>The Process Launcher\<close>

lemma tick_log [simp]: "tick (log_event e w) = Suc (tick w)"
  by (simp add: tick_def log_event_def)

lemma tick_errno [simp]: "tick (w\<lparr>w_errno := e\<rparr>) = tick w"
  by (simp add: tick_def)


lemma wait_post_step:
  assumes "wait_post sys pid s1 w1 y n"
    and "\<not> WIFEXITED s1 \<and> \<not> WIFSIGNALED s1"
    and "w_trace w1 = w_trace w @ [EvWaitpid pid WUNTRACED]"
    and "\<forall>s'. os_waitpid sys (tick w) pid WUNTRACED = Inr s' \<longrightarrow>
               \<not> WIFEXITED s' \<and> \<not> WIFSIGNALED s'"
  shows "wait_post sys pid status w y (Suc n)"
proof -
  have t: "tick w1 = Suc (tick w)"
    using assms(3) by (simp add: tick_def)
  from assms(1,2) have last: "os_waitpid sys (tick w1 + n) pid WUNTRACED = Inr (fst y)"
    "WIFEXITED (fst y) \<or> WIFSIGNALED (fst y)"
    and before: "\<forall>k<n. \<forall>s'. os_waitpid sys (tick w1 + k) pid WUNTRACED = Inr s' \<longrightarrow>
                  \<not> WIFEXITED s' \<and> \<not> WIFSIGNALED s'"
    unfolding wait_post_def by auto
  have "\<forall>k<Suc n. \<forall>s'. os_waitpid sys (tick w + k) pid WUNTRACED = Inr s' \<longrightarrow>
               \<not> WIFEXITED s' \<and> \<not> WIFSIGNALED s'"
  proof (intro allI impI)
    fix k s' assume k: "k < Suc n" and a: "os_waitpid sys (tick w + k) pid WUNTRACED = Inr s'"
    show "\<not> WIFEXITED s' \<and> \<not> WIFSIGNALED s'"
    proof (cases k)
      case 0
      with a assms(4) show ?thesis by simp
    next
      case (Suc k')
      with k a t before show ?thesis by simp
    qed
  qed
  moreover have "w_trace (snd y) = w_trace w @ replicate (Suc (Suc n)) (EvWaitpid pid WUNTRACED)"
    using assms(1,3) by (simp add: wait_post_def)
  moreover have "os_waitpid sys (tick w + Suc n) pid WUNTRACED = Inr (fst y)"
    using last(1) t by simp
  ultimately show ?thesis
    unfolding wait_post_def using last(2) by blast
qed

lemma wait_loop_sound_aux:
  "wait_loop sys pid status w = Some y \<Longrightarrow> \<exists>n. wait_post sys pid status w y n"
proof (induction rule: wait_loop.raw_induct [rotated 1, consumes 1])
  case (1 wl sys pid status w y)
  let ?ev = "EvWaitpid pid WUNTRACED"
  show ?case
  proof (cases "os_waitpid sys (tick w) pid WUNTRACED")
    case (Inl e)
    let ?w1 = "(log_event ?ev w)\<lparr>w_errno := e\<rparr>"
    have wp: "waitpid sys pid status WUNTRACED w = (status, ?w1)"
      using Inl by (simp add: waitpid_def)
    show ?thesis
    proof (cases "\<not> WIFEXITED status \<and> \<not> WIFSIGNALED status")
      case True
      with wp 1(2) have "wl sys pid status ?w1 = Some y" by simp
      from 1(1) [OF this] obtain n where "wait_post sys pid status ?w1 y n" by auto
      then have "wait_post sys pid status w y (Suc n)"
        by (rule wait_post_step) (use True Inl in \<open>simp_all add: log_event_def\<close>)
      then show ?thesis ..
    next
      case False
      with wp 1(2) have "y = (status, ?w1)" by auto
      with False Inl have "wait_post sys pid status w y 0"
        by (auto simp: wait_post_def log_event_def)
      then show ?thesis ..
    qed
  next
    case (Inr s)
    let ?w1 = "log_event ?ev w"
    have wp: "waitpid sys pid status WUNTRACED w = (s, ?w1)"
      using Inr by (simp add: waitpid_def)
    show ?thesis
    proof (cases "\<not> WIFEXITED s \<and> \<not> WIFSIGNALED s")
      case True
      with wp 1(2) have "wl sys pid s ?w1 = Some y" by simp
      from 1(1) [OF this] obtain n where "wait_post sys pid s ?w1 y n" by auto
      then have "wait_post sys pid status w y (Suc n)"
        by (rule wait_post_step) (use True Inr in \<open>simp_all add: log_event_def\<close>)
      then show ?thesis ..
    next
      case False
      with wp 1(2) have "y = (s, ?w1)" by auto
      with False Inr have "wait_post sys pid status w y 0"
        by (auto simp: wait_post_def log_event_def)
      then show ?thesis ..
    qed
  qed
qed

lemma wait_loop_returns:
  assumes "os_waitpid sys (tick w + n) pid WUNTRACED = Inr s"
    and "WIFEXITED s \<or> WIFSIGNALED s"
    and "\<forall>k<n. \<forall>s'. os_waitpid sys (tick w + k) pid WUNTRACED = Inr s' \<longrightarrow>
               \<not> WIFEXITED s' \<and> \<not> WIFSIGNALED s'"
    and "WIFEXITED status \<or> WIFSIGNALED status \<longrightarrow>
           (\<exists>s0. os_waitpid sys (tick w) pid WUNTRACED = Inr s0)"
  shows "\<exists>w'. wait_loop sys pid status w = Some (s, w')
           \<and> w_trace w' = w_trace w @ replicate (Suc n) (EvWaitpid pid WUNTRACED)
           \<and> w_stdin w' = w_stdin w \<and> w_stdout w' = w_stdout w
           \<and> w_stderr w' = w_stderr w \<and> w_cwd w' = w_cwd w"
  using assms
proof (induction n arbitrary: w status)
  case 0
  then have "waitpid sys pid status WUNTRACED w = (s, log_event (EvWaitpid pid WUNTRACED) w)"
    by (simp add: waitpid_def)
  with 0(2) have "wait_loop sys pid status w = Some (s, log_event (EvWaitpid pid WUNTRACED) w)"
    by (subst wait_loop.simps) auto
  then show ?case by (simp add: log_event_def)
next
  case (Suc n)
  let ?ev = "EvWaitpid pid WUNTRACED"
  obtain status1 w1 where wp: "waitpid sys pid status WUNTRACED w = (status1, w1)"
    by (cases "waitpid sys pid status WUNTRACED w")
  have w1: "w_trace w1 = w_trace w @ [?ev]" "w_stdin w1 = w_stdin w" "w_stdout w1 = w_stdout w"
    "w_stderr w1 = w_stderr w" "w_cwd w1 = w_cwd w"
    using wp by (auto simp: waitpid_def log_event_def split: sum.splits)
  then have t1: "tick w1 = Suc (tick w)" by (simp add: tick_def)
  have s1: "\<not> WIFEXITED status1 \<and> \<not> WIFSIGNALED status1"
  proof (cases "os_waitpid sys (tick w) pid WUNTRACED")
    case (Inl e)
    with wp have "status1 = status" by (simp add: waitpid_def)
    with Inl Suc.prems(4) show ?thesis by auto
  next
    case (Inr s1)
    with wp have "status1 = s1" by (simp add: waitpid_def)
    moreover from Inr Suc.prems(3) have "\<not> WIFEXITED s1 \<and> \<not> WIFSIGNALED s1"
      by (metis add.right_neutral zero_less_Suc)
    ultimately show ?thesis by simp
  qed
  have unfold: "wait_loop sys pid status w = wait_loop sys pid status1 w1"
    using wp s1 by (subst wait_loop.simps) simp
  have a1: "os_waitpid sys (tick w1 + n) pid WUNTRACED = Inr s"
    using Suc.prems(1) t1 by simp
  have a3: "\<forall>k<n. \<forall>s'. os_waitpid sys (tick w1 + k) pid WUNTRACED = Inr s' \<longrightarrow>
               \<not> WIFEXITED s' \<and> \<not> WIFSIGNALED s'"
  proof (intro allI impI)
    fix k s' assume "k < n" "os_waitpid sys (tick w1 + k) pid WUNTRACED = Inr s'"
    then have "Suc k < Suc n" "os_waitpid sys (tick w + Suc k) pid WUNTRACED = Inr s'"
      using t1 by simp_all
    with Suc.prems(3) show "\<not> WIFEXITED s' \<and> \<not> WIFSIGNALED s'" by blast
  qed
  from Suc.IH [OF a1 Suc.prems(2) a3, of status1] s1
  obtain w' where "wait_loop sys pid status1 w1 = Some (s, w')"
    "w_trace w' = w_trace w1 @ replicate (Suc n) ?ev"
    "w_stdin w' = w_stdin w1" "w_stdout w' = w_stdout w1"
    "w_stderr w' = w_stderr w1" "w_cwd w' = w_cwd w1"
    by auto
  with unfold w1 show ?case by simp
qed

lemma wait_loop_stopped_forever:
  assumes "\<forall>k. \<exists>sg. os_waitpid sys (tick w + k) pid WUNTRACED = Inr (WStopped sg)"
  shows "wait_loop sys pid status w = None"
proof (rule ccontr)
  assume "wait_loop sys pid status w \<noteq> None"
  then obtain y where y: "wait_loop sys pid status w = Some y" by auto
  from wait_loop_sound_aux [OF y] obtain n where n: "wait_post sys pid status w y n" by auto
  from assms obtain sg where sg: "os_waitpid sys (tick w + n) pid WUNTRACED = Inr (WStopped sg)"
    by blast
  from assms obtain sg0 where sg0: "os_waitpid sys (tick w) pid WUNTRACED = Inr (WStopped sg0)"
    by (metis add.right_neutral)
  from n have "(os_waitpid sys (tick w + n) pid WUNTRACED = Inr (fst y)
           \<and> (WIFEXITED (fst y) \<or> WIFSIGNALED (fst y)))
         \<or> (\<exists>e. os_waitpid sys (tick w) pid WUNTRACED = Inl e)"
    unfolding wait_post_def by blast
  then show False
  proof
    assume a: "os_waitpid sys (tick w + n) pid WUNTRACED = Inr (fst y)
           \<and> (WIFEXITED (fst y) \<or> WIFSIGNALED (fst y))"
    with sg have "fst y = WStopped sg" by simp
    with a show False by simp
  next
    assume "\<exists>e. os_waitpid sys (tick w) pid WUNTRACED = Inl e"
    with sg0 show False by simp
  qed
qed

lemma fork_parent:
  "os_fork sys (tick w) = Inr pid \<Longrightarrow> fork sys w = (pid, log_event EvFork w)"
  by (simp add: fork_def)

lemma lsh_launch_parent:
  assumes "os_fork sys (tick w) = Inr pid" "0 < pid"
  shows "lsh_launch sys args w =
     (case wait_loop sys pid (os_unassigned sys (tick w)) (log_event EvFork w) of
        None \<Rightarrow> None
      | Some (status1, w2) \<Rightarrow> Some (Ret 1, w2))"
  using assms by (simp add: lsh_launch_def fork_parent)

lemma lsh_launch_Ret:
  "lsh_launch sys args w = Some (Ret r, w') \<Longrightarrow> r = 1"
  by (auto simp: lsh_launch_def split: prod.splits if_splits sum.splits option.splits)

text \<open>The parent branch (\<open>fork\<close> returned the child's process id). If \<open>lsh_launch\<close> returns,
  then what it did after the \<open>fork\<close> is a number of calls of \<open>waitpid\<close>, each on that child and
  with \<open>WUNTRACED\<close>, and either the last of them reported that the child exited or was killed
  by a signal and none before it did, or there was one call only, which failed, and the
  unassigned \<open>status\<close> read as exited or killed. If every call reports the child stopped,
  \<open>lsh_launch\<close> never returns. If the child is reported stopped \<open>m\<close> times and then exited or
  killed, \<open>lsh_launch\<close> returns 1 after exactly \<open>m + 1\<close> calls.\<close>

lemma lsh_launch_wait:
  assumes "os_fork sys (tick w) = Inr pid" and "0 < pid"
  shows "(lsh_launch sys args w = Some (Ret r, w') \<longrightarrow>
          (\<exists>n. w_trace w' = w_trace w @ EvFork # replicate (Suc n) (EvWaitpid pid WUNTRACED)
             \<and> ((\<exists>s. os_waitpid sys (tick w + 1 + n) pid WUNTRACED = Inr s
                    \<and> (WIFEXITED s \<or> WIFSIGNALED s)
                    \<and> (\<forall>k<n. \<forall>s'. os_waitpid sys (tick w + 1 + k) pid WUNTRACED = Inr s' \<longrightarrow>
                          \<not> WIFEXITED s' \<and> \<not> WIFSIGNALED s'))
                \<or> (n = 0 \<and> (\<exists>e. os_waitpid sys (tick w + 1) pid WUNTRACED = Inl e)
                    \<and> (WIFEXITED (os_unassigned sys (tick w))
                        \<or> WIFSIGNALED (os_unassigned sys (tick w)))))))
       \<and> ((\<forall>k. \<exists>sg. os_waitpid sys (tick w + 1 + k) pid WUNTRACED = Inr (WStopped sg)) \<longrightarrow>
          lsh_launch sys args w = None)
       \<and> ((\<forall>k<m. \<exists>sg. os_waitpid sys (tick w + 1 + k) pid WUNTRACED = Inr (WStopped sg))
          \<and> os_waitpid sys (tick w + 1 + m) pid WUNTRACED = Inr t
          \<and> (WIFEXITED t \<or> WIFSIGNALED t) \<longrightarrow>
          (\<exists>w1. lsh_launch sys args w = Some (Ret 1, w1)
             \<and> w_trace w1 = w_trace w @ EvFork # replicate (Suc m) (EvWaitpid pid WUNTRACED)))"
proof (intro conjI impI)
  let ?w0 = "log_event EvFork w"
  let ?u = "os_unassigned sys (tick w)"
  have t0: "tick ?w0 = tick w + 1" by simp
  have tr0: "w_trace ?w0 = w_trace w @ [EvFork]" by (simp add: log_event_def)
  note launch = lsh_launch_parent [OF assms, of args]
  {
    assume ret: "lsh_launch sys args w = Some (Ret r, w')"
    then obtain s where wl: "wait_loop sys pid ?u ?w0 = Some (s, w')"
      unfolding launch by (auto split: option.splits prod.splits)
    from wait_loop_sound_aux [OF wl] obtain n where "wait_post sys pid ?u ?w0 (s, w') n"
      by auto
    then have "w_trace w' = w_trace w @ EvFork # replicate (Suc n) (EvWaitpid pid WUNTRACED)
             \<and> ((\<exists>s. os_waitpid sys (tick w + 1 + n) pid WUNTRACED = Inr s
                    \<and> (WIFEXITED s \<or> WIFSIGNALED s)
                    \<and> (\<forall>k<n. \<forall>s'. os_waitpid sys (tick w + 1 + k) pid WUNTRACED = Inr s' \<longrightarrow>
                          \<not> WIFEXITED s' \<and> \<not> WIFSIGNALED s'))
                \<or> (n = 0 \<and> (\<exists>e. os_waitpid sys (tick w + 1) pid WUNTRACED = Inl e)
                    \<and> (WIFEXITED ?u \<or> WIFSIGNALED ?u)))"
      unfolding wait_post_def t0 tr0 by auto
    then show "\<exists>n. w_trace w' = w_trace w @ EvFork # replicate (Suc n) (EvWaitpid pid WUNTRACED)
             \<and> ((\<exists>s. os_waitpid sys (tick w + 1 + n) pid WUNTRACED = Inr s
                    \<and> (WIFEXITED s \<or> WIFSIGNALED s)
                    \<and> (\<forall>k<n. \<forall>s'. os_waitpid sys (tick w + 1 + k) pid WUNTRACED = Inr s' \<longrightarrow>
                          \<not> WIFEXITED s' \<and> \<not> WIFSIGNALED s'))
                \<or> (n = 0 \<and> (\<exists>e. os_waitpid sys (tick w + 1) pid WUNTRACED = Inl e)
                    \<and> (WIFEXITED ?u \<or> WIFSIGNALED ?u)))"
      by blast
  }
  {
    assume "\<forall>k. \<exists>sg. os_waitpid sys (tick w + 1 + k) pid WUNTRACED = Inr (WStopped sg)"
    then have "\<forall>k. \<exists>sg. os_waitpid sys (tick ?w0 + k) pid WUNTRACED = Inr (WStopped sg)"
      unfolding t0 .
    then have "wait_loop sys pid ?u ?w0 = None"
      by (rule wait_loop_stopped_forever)
    then show "lsh_launch sys args w = None"
      unfolding launch by simp
  }
  {
    assume a: "(\<forall>k<m. \<exists>sg. os_waitpid sys (tick w + 1 + k) pid WUNTRACED = Inr (WStopped sg))
          \<and> os_waitpid sys (tick w + 1 + m) pid WUNTRACED = Inr t
          \<and> (WIFEXITED t \<or> WIFSIGNALED t)"
    have h1: "os_waitpid sys (tick ?w0 + m) pid WUNTRACED = Inr t"
      using a unfolding t0 by simp
    have h3: "\<forall>k<m. \<forall>s'. os_waitpid sys (tick ?w0 + k) pid WUNTRACED = Inr s' \<longrightarrow>
               \<not> WIFEXITED s' \<and> \<not> WIFSIGNALED s'"
      using a unfolding t0 by fastforce
    have h4: "WIFEXITED ?u \<or> WIFSIGNALED ?u \<longrightarrow>
        (\<exists>s0. os_waitpid sys (tick ?w0) pid WUNTRACED = Inr s0)"
    proof (cases m)
      case 0
      with h1 show ?thesis by simp
    next
      case (Suc m')
      with a have "\<exists>sg. os_waitpid sys (tick w + 1 + 0) pid WUNTRACED = Inr (WStopped sg)"
        by blast
      then show ?thesis unfolding t0 by auto
    qed
    from wait_loop_returns [OF h1 _ h3 h4] a
    obtain w1 where "wait_loop sys pid ?u ?w0 = Some (t, w1)"
      "w_trace w1 = w_trace ?w0 @ replicate (Suc m) (EvWaitpid pid WUNTRACED)"
      by auto
    then show "\<exists>w1. lsh_launch sys args w = Some (Ret 1, w1)
             \<and> w_trace w1 = w_trace w @ EvFork # replicate (Suc m) (EvWaitpid pid WUNTRACED)"
      unfolding launch tr0 by simp
  }
qed

lemma lsh_launch_stopped_child:
  "lsh_launch os_stopped [''ls''] world0 = None"
proof -
  have "os_fork os_stopped (tick world0) = Inr 7" "(0::int) < 7"
    by (simp_all add: os_grant_def os_stopped_def)
  from lsh_launch_wait [OF this, of "[''ls'']" 1 world0 1 "WExited 42"]
  show ?thesis by (simp add: os_stopped_def)
qed

text \<open>Claim C7. In the parent branch of \<open>lsh_launch\<close> the wait on the child is to be repeated
  until a call of \<open>waitpid\<close> reports that the child exited or was killed by a signal, which is
  also what the comment on the loop says. The loop does not look at what \<open>waitpid\<close> returns
  and \<open>status\<close> has no initial value: on a system where \<open>fork\<close> gives the child 7, \<open>waitpid\<close>
  fails with \<open>ECHILD\<close> and the unassigned \<open>status\<close> reads as 0, the one call that is made
  reports nothing, the test reads the unassigned \<open>status\<close> as an exit, and \<open>lsh_launch\<close>
  returns 1 after that single failed call.\<close>

theorem lsh_launch_returns_after_failed_wait:
  "os_fork os_nochild (tick world0) = Inr 7
   \<and> os_waitpid os_nochild (tick world0 + 1) 7 WUNTRACED = Inl ECHILD
   \<and> os_unassigned os_nochild (tick world0) = WExited 0
   \<and> lsh_launch os_nochild [''sleep'', ''60''] world0 =
       Some (Ret 1, world0\<lparr>w_errno := ECHILD, w_trace := [EvFork, EvWaitpid 7 WUNTRACED]\<rparr>)"
proof -
  let ?w0 = "log_event EvFork world0"
  have "waitpid os_nochild 7 (WExited 0) WUNTRACED ?w0 =
          (WExited 0, (log_event (EvWaitpid 7 WUNTRACED) ?w0)\<lparr>w_errno := ECHILD\<rparr>)"
    by (simp add: waitpid_def os_nochild_def)
  then have "wait_loop os_nochild 7 (WExited 0) ?w0 =
          Some (WExited 0, (log_event (EvWaitpid 7 WUNTRACED) ?w0)\<lparr>w_errno := ECHILD\<rparr>)"
    by (subst wait_loop.simps) simp
  then show ?thesis
    by (simp add: lsh_launch_def fork_def os_nochild_def os_grant_def log_event_def world0_def
        tick_def)
qed

subsection \<open>The Line Reader and the Tokenizer: every store is inside the allocation\<close>

lemma alloc_only_refl: "alloc_only w w"
  by (simp add: alloc_only_def)

lemma alloc_only_stdin: "alloc_only w w' \<Longrightarrow> alloc_only (w\<lparr>w_stdin := cs\<rparr>) w'"
  by (simp add: alloc_only_def)

lemma alloc_only_trans: "alloc_only w w1 \<Longrightarrow> alloc_only w1 w2 \<Longrightarrow> alloc_only w w2"
  unfolding alloc_only_def
  by (metis append.assoc map_append)

lemma alloc_only_log: "alloc_only w (log_event (EvAlloc n) w)"
  unfolding alloc_only_def log_event_def
  by (simp, rule exI [of _ "[n]"], simp)

lemma store_ok: "i < length p \<Longrightarrow> store p i v = Inr (p[i := Val v])"
  by (simp add: store_def)

lemma realloc_cases:
  "realloc sys p count width w = (r, w') \<Longrightarrow>
     w' = log_event (EvAlloc (count * width)) w
     \<and> (r = None \<or> (\<exists>tmp. r = Some tmp \<and> length tmp = count
           \<and> (length p \<le> count \<longrightarrow> take (length p) tmp = p)))"
  by (auto simp: realloc_def split: if_splits)

lemma realloc_ok:
  "os_alloc sys (tick w) (count * width) \<Longrightarrow> length p \<le> count \<Longrightarrow>
     realloc sys p count width w =
       (Some (p @ replicate (count - length p) Uninit), log_event (EvAlloc (count * width)) w)"
  by (simp add: realloc_def)

lemma log_event_stdin [simp]: "w_stdin (log_event e w) = w_stdin w"
  by (simp add: log_event_def)

lemma read_loop_in_bounds:
  "w_stdin w = cs \<Longrightarrow> length buffer = bufsize \<Longrightarrow> position < bufsize \<Longrightarrow>
     fst (read_loop sys bufsize position buffer w) \<noteq> Undefined OutOfBounds"
proof (induction cs arbitrary: w buffer bufsize position)
  case Nil
  then show ?case
    by (subst read_loop.simps) (simp add: getchar_def store_ok)
next
  case (Cons c cs)
  let ?w1 = "w\<lparr>w_stdin := cs\<rparr>"
  have g: "getchar w = (Some c, ?w1)"
    using Cons.prems(1) by (simp add: getchar_def)
  show ?case
  proof (cases "c = newline")
    case True
    with g Cons.prems show ?thesis
      by (subst read_loop.simps) (simp add: store_ok)
  next
    case False
    let ?b1 = "buffer[position := Val c]"
    have st: "store buffer position c = Inr ?b1"
      using Cons.prems by (simp add: store_ok)
    show ?thesis
    proof (cases "position + 1 \<ge> bufsize")
      case grow: True
      show ?thesis
      proof (cases "bufsize + LSH_RL_BUFSIZE > INT_MAX")
        case True
        with g False st grow show ?thesis
          by (subst read_loop.simps) simp
      next
        case no: False
        obtain r w2 where re: "realloc sys ?b1 (bufsize + LSH_RL_BUFSIZE) sizeof_char ?w1 = (r, w2)"
          by (cases "realloc sys ?b1 (bufsize + LSH_RL_BUFSIZE) sizeof_char ?w1")
        from realloc_cases [OF re]
        have w2: "w_stdin w2 = cs"
          and r: "r = None \<or> (\<exists>tmp. r = Some tmp \<and> length tmp = bufsize + LSH_RL_BUFSIZE)"
          by auto
        show ?thesis
        proof (cases r)
          case None
          with g False st grow no re show ?thesis
            by (subst read_loop.simps) simp
        next
          case (Some tmp)
          with r have len: "length tmp = bufsize + LSH_RL_BUFSIZE" by simp
          have "position + 1 < bufsize + LSH_RL_BUFSIZE"
            using Cons.prems(3) by (simp add: LSH_RL_BUFSIZE_def)
          from Cons.IH [OF w2 len this]
          have "fst (read_loop sys (bufsize + LSH_RL_BUFSIZE) (position + 1) tmp w2)
                  \<noteq> Undefined OutOfBounds" .
          with g False st grow no re Some show ?thesis
            by (subst read_loop.simps) simp
        qed
      qed
    next
      case nogrow: False
      have "w_stdin ?w1 = cs" "length ?b1 = bufsize" "position + 1 < bufsize"
        using Cons.prems nogrow by simp_all
      from Cons.IH [OF this]
      have "fst (read_loop sys bufsize (position + 1) ?b1 ?w1) \<noteq> Undefined OutOfBounds" .
      with g False st nogrow show ?thesis
        by (subst read_loop.simps) simp
    qed
  qed
qed

lemma malloc_cases:
  "malloc sys count width w = (r, w') \<Longrightarrow>
     w' = log_event (EvAlloc (count * width)) w
     \<and> (r = None \<or> r = Some (replicate count Uninit))"
  by (auto simp: malloc_def split: if_splits)

lemma lsh_read_line_in_bounds:
  "fst (lsh_read_line sys w) \<noteq> Undefined OutOfBounds"
proof -
  obtain r w1 where m: "malloc sys LSH_RL_BUFSIZE sizeof_char w = (r :: char cell list option, w1)"
    by (cases "malloc sys LSH_RL_BUFSIZE sizeof_char w :: char cell list option \<times> world")
  from malloc_cases [OF m] have r: "r = None \<or> r = Some (replicate LSH_RL_BUFSIZE Uninit)"
    by simp
  show ?thesis
  proof (cases r)
    case None
    with m show ?thesis by (simp add: lsh_read_line_def)
  next
    case (Some buffer)
    with r have "length buffer = LSH_RL_BUFSIZE" by auto
    moreover have "0 < LSH_RL_BUFSIZE" by (simp add: LSH_RL_BUFSIZE_def)
    ultimately have "fst (read_loop sys LSH_RL_BUFSIZE 0 buffer w1) \<noteq> Undefined OutOfBounds"
      using read_loop_in_bounds [OF refl] by blast
    with m Some show ?thesis by (simp add: lsh_read_line_def)
  qed
qed


lemma split_loop_in_bounds:
  "length tokens = bufsize \<Longrightarrow> position < bufsize \<Longrightarrow>
     fst (split_loop sys bufsize position tokens token save w) \<noteq> Undefined OutOfBounds"
proof (induction sys bufsize position tokens token save w rule: split_loop.induct)
  case (1 sys bufsize position tokens token save w)
  show ?case
  proof (cases token)
    case None
    with 1(3,4) show ?thesis
      by (subst split_loop.simps) (simp add: store_ok)
  next
    case (Some tok)
    let ?t1 = "tokens[position := Val (Some tok)]"
    have st: "store tokens position (Some tok) = Inr ?t1"
      using 1(3,4) by (simp add: store_ok)
    obtain token1 save1 where tk: "strtok None LSH_TOK_DELIM save = (token1, save1)"
      by (cases "strtok None LSH_TOK_DELIM save")
    show ?thesis
    proof (cases "position + 1 \<ge> bufsize")
      case grow: True
      show ?thesis
      proof (cases "bufsize + LSH_TOK_BUFSIZE > INT_MAX")
        case True
        with Some st grow show ?thesis
          by (subst split_loop.simps) simp
      next
        case no: False
        obtain r w1 where re: "realloc sys ?t1 (bufsize + LSH_TOK_BUFSIZE) sizeof_ptr w = (r, w1)"
          by (cases "realloc sys ?t1 (bufsize + LSH_TOK_BUFSIZE) sizeof_ptr w")
        from realloc_cases [OF re]
        have r: "r = None \<or> (\<exists>tmp. r = Some tmp \<and> length tmp = bufsize + LSH_TOK_BUFSIZE)"
          by auto
        show ?thesis
        proof (cases r)
          case None
          with Some st grow no re show ?thesis
            by (subst split_loop.simps) simp
        next
          case tmp: (Some tmp)
          with r have len: "length tmp = bufsize + LSH_TOK_BUFSIZE" by simp
          have lt: "position + 1 < bufsize + LSH_TOK_BUFSIZE"
            using 1(4) by (simp add: LSH_TOK_BUFSIZE_def)
          have "fst (split_loop sys (bufsize + LSH_TOK_BUFSIZE) (position + 1) tmp token1 save1 w1)
                  \<noteq> Undefined OutOfBounds"
            using 1(1) [OF Some st grow no re [symmetric] tmp tk [symmetric] len lt] .
          with Some st grow no re tmp tk show ?thesis
            by (subst split_loop.simps) simp
        qed
      qed
    next
      case nogrow: False
      have "length ?t1 = bufsize" "position + 1 < bufsize"
        using 1(3) nogrow by simp_all
      from 1(2) [OF Some st nogrow tk [symmetric] this]
      have "fst (split_loop sys bufsize (position + 1) ?t1 token1 save1 w) \<noteq> Undefined OutOfBounds" .
      with Some st nogrow tk show ?thesis
        by (subst split_loop.simps) simp
    qed
  qed
qed

lemma lsh_split_line_in_bounds:
  "fst (lsh_split_line sys line w) \<noteq> Undefined OutOfBounds"
proof -
  obtain r w1 where m: "malloc sys LSH_TOK_BUFSIZE sizeof_ptr w = (r :: string option cell list option, w1)"
    by (cases "malloc sys LSH_TOK_BUFSIZE sizeof_ptr w :: string option cell list option \<times> world")
  from malloc_cases [OF m] have r: "r = None \<or> r = Some (replicate LSH_TOK_BUFSIZE Uninit)"
    by simp
  obtain token save where tk: "strtok (Some line) LSH_TOK_DELIM [] = (token, save)"
    by (cases "strtok (Some line) LSH_TOK_DELIM []")
  show ?thesis
  proof (cases r)
    case None
    with m show ?thesis by (simp add: lsh_split_line_def)
  next
    case (Some tokens)
    with r have "length tokens = LSH_TOK_BUFSIZE" by auto
    moreover have "0 < LSH_TOK_BUFSIZE" by (simp add: LSH_TOK_BUFSIZE_def)
    ultimately have "fst (split_loop sys LSH_TOK_BUFSIZE 0 tokens token save w1) \<noteq> Undefined OutOfBounds"
      by (rule split_loop_in_bounds)
    with m Some tk show ?thesis by (simp add: lsh_split_line_def)
  qed
qed


lemma alloc_only_set_stdin: "alloc_only w (w\<lparr>w_stdin := cs\<rparr>)"
  by (simp add: alloc_only_def)

lemma take_Suc_update:
  "i < length p \<Longrightarrow> take (Suc i) (p[i := v]) = take i p @ [v]"
  by (simp add: take_Suc_conv_app_nth)

lemma read_loop_ok:
  assumes "\<forall>t n. os_alloc sys t n"
    and "w_stdin w = line @ rest" and "newline \<notin> set line"
    and "rest = [] \<or> hd rest = newline"
    and "length buffer = bufsize" and "position < bufsize"
    and "position + length line + LSH_RL_BUFSIZE \<le> INT_MAX"
  shows "\<exists>buffer' w'. read_loop sys bufsize position buffer w = (Ret buffer', w')
           \<and> take (position + length line + 1) buffer' =
               take position buffer @ map Val line @ [Val NUL]
           \<and> position + length line < length buffer'
           \<and> w_stdin w' = drop 1 rest \<and> alloc_only w w'"
  using assms(2-)
proof (induction line arbitrary: w buffer bufsize position)
  case Nil
  let ?b1 = "buffer[position := Val NUL]"
  have st: "store buffer position NUL = Inr ?b1"
    using Nil.prems by (simp add: store_ok)
  have tk: "take (position + 1) ?b1 = take position buffer @ [Val NUL]"
    using Nil.prems take_Suc_update [of position buffer "Val NUL"] by simp
  show ?case
  proof (cases rest)
    case Nil
    with Nil.prems(1) have "getchar w = (None, w)" by (simp add: getchar_def)
    with st have "read_loop sys bufsize position buffer w = (Ret ?b1, w)"
      by (subst read_loop.simps) simp
    with tk Nil Nil.prems show ?thesis
      by (simp add: alloc_only_refl)
  next
    case (Cons c rest')
    with Nil.prems(3) have c: "c = newline" by simp
    from Cons Nil.prems(1) have "getchar w = (Some c, w\<lparr>w_stdin := rest'\<rparr>)"
      by (simp add: getchar_def)
    with st c have "read_loop sys bufsize position buffer w = (Ret ?b1, w\<lparr>w_stdin := rest'\<rparr>)"
      by (subst read_loop.simps) simp
    with tk Cons Nil.prems show ?thesis
      by (simp add: alloc_only_set_stdin)
  qed
next
  case (Cons c line)
  let ?w1 = "w\<lparr>w_stdin := line @ rest\<rparr>"
  let ?b1 = "buffer[position := Val c]"
  have g: "getchar w = (Some c, ?w1)"
    using Cons.prems(1) by (simp add: getchar_def)
  have nl: "c \<noteq> newline" "newline \<notin> set line"
    using Cons.prems(2) by auto
  have st: "store buffer position c = Inr ?b1"
    using Cons.prems by (simp add: store_ok)
  have tk: "take (position + 1) ?b1 = take position buffer @ [Val c]"
    using Cons.prems take_Suc_update [of position buffer "Val c"] by simp
  have "\<exists>bufsize1 buffer1 w2.
          read_loop sys bufsize position buffer w =
            read_loop sys bufsize1 (position + 1) buffer1 w2
          \<and> w_stdin w2 = line @ rest \<and> length buffer1 = bufsize1
          \<and> position + 1 < bufsize1 \<and> take (position + 1) buffer1 = take (position + 1) ?b1
          \<and> alloc_only w w2"
  proof (cases "position + 1 \<ge> bufsize")
    case True
    then have no: "\<not> bufsize + LSH_RL_BUFSIZE > INT_MAX"
      using Cons.prems(6) by simp
    let ?tmp = "?b1 @ replicate (bufsize + LSH_RL_BUFSIZE - length ?b1) Uninit"
    let ?w2 = "log_event (EvAlloc ((bufsize + LSH_RL_BUFSIZE) * sizeof_char)) ?w1"
    have re: "realloc sys ?b1 (bufsize + LSH_RL_BUFSIZE) sizeof_char ?w1 = (Some ?tmp, ?w2)"
      using assms(1) Cons.prems(4) by (simp add: realloc_ok)
    have "read_loop sys bufsize position buffer w =
            read_loop sys (bufsize + LSH_RL_BUFSIZE) (position + 1) ?tmp ?w2"
      using g nl st True no re by (subst read_loop.simps) simp
    moreover have "alloc_only w ?w2"
      using alloc_only_trans [OF alloc_only_set_stdin alloc_only_log] .
    moreover have "take (position + 1) ?tmp = take (position + 1) ?b1"
      using Cons.prems(4,5) by simp
    ultimately show ?thesis
      using Cons.prems(4,5)
      by (intro exI [of _ "bufsize + LSH_RL_BUFSIZE"] exI [of _ ?tmp] exI [of _ ?w2])
         (simp add: LSH_RL_BUFSIZE_def)
  next
    case False
    then have "read_loop sys bufsize position buffer w =
            read_loop sys bufsize (position + 1) ?b1 ?w1"
      using g nl st by (subst read_loop.simps) simp
    with False Cons.prems(4) show ?thesis
      by (intro exI [of _ bufsize] exI [of _ ?b1] exI [of _ ?w1]) (simp add: alloc_only_set_stdin)
  qed
  then obtain bufsize1 buffer1 w2 where
    step: "read_loop sys bufsize position buffer w = read_loop sys bufsize1 (position + 1) buffer1 w2"
    and w2: "w_stdin w2 = line @ rest" and len: "length buffer1 = bufsize1"
    and pos: "position + 1 < bufsize1"
    and pre: "take (position + 1) buffer1 = take (position + 1) ?b1"
    and fr: "alloc_only w w2"
    by blast
  have lim: "position + 1 + length line + LSH_RL_BUFSIZE \<le> INT_MAX"
    using Cons.prems(6) by simp
  from Cons.IH [OF w2 nl(2) Cons.prems(3) len pos lim]
  obtain buffer' w' where
    r: "read_loop sys bufsize1 (position + 1) buffer1 w2 = (Ret buffer', w')"
    and t: "take (position + 1 + length line + 1) buffer' =
               take (position + 1) buffer1 @ map Val line @ [Val NUL]"
    and l: "position + 1 + length line < length buffer'"
    and i: "w_stdin w' = drop 1 rest" and f: "alloc_only w2 w'"
    by blast
  have "take (position + length (c # line) + 1) buffer' =
               take position buffer @ map Val (c # line) @ [Val NUL]"
    using t pre tk by simp
  moreover have "position + length (c # line) < length buffer'" using l by simp
  moreover have "alloc_only w w'" using fr f by (rule alloc_only_trans)
  ultimately show ?case using step r i by simp
qed

subsection \<open>\<open>strtok\<close> yields the tokens of the specification\<close>

lemma in_delim: "(c \<in> set LSH_TOK_DELIM) = spec_delim c"
  by (auto simp: LSH_TOK_DELIM_def spec_delim_def)

lemma fields_unfold:
  "line_fields d cs = takeWhile (\<lambda>c. \<not> d c) cs #
     (case dropWhile (\<lambda>c. \<not> d c) cs of [] \<Rightarrow> [] | x # xs \<Rightarrow> line_fields d xs)"
  by (induction cs) (auto split: list.splits)

lemma spec_tokens_Nil [simp]: "spec_tokens [] = []"
  by (simp add: spec_tokens_def)

lemma spec_tokens_delim: "spec_delim c \<Longrightarrow> spec_tokens (c # cs) = spec_tokens cs"
  by (simp add: spec_tokens_def)

lemma spec_tokens_dropWhile: "spec_tokens (dropWhile spec_delim s) = spec_tokens s"
  by (induction s) (auto simp: spec_tokens_delim)

lemma spec_tokens_word:
  "\<not> spec_delim c \<Longrightarrow>
     spec_tokens (c # cs) =
       (c # takeWhile (\<lambda>c. \<not> spec_delim c) cs) #
         spec_tokens (drop 1 (dropWhile (\<lambda>c. \<not> spec_delim c) cs))"
proof -
  assume nd: "\<not> spec_delim c"
  have f: "line_fields spec_delim cs = takeWhile (\<lambda>c. \<not> spec_delim c) cs #
     (case dropWhile (\<lambda>c. \<not> spec_delim c) cs of [] \<Rightarrow> [] | x # xs \<Rightarrow> line_fields spec_delim xs)"
    by (rule fields_unfold)
  show ?thesis
  proof (cases "dropWhile (\<lambda>c. \<not> spec_delim c) cs")
    case Nil
    with nd f show ?thesis
      by (simp add: spec_tokens_def del: dropWhile_eq_Nil_conv)
  next
    case (Cons x xs)
    with nd f show ?thesis
      by (simp add: spec_tokens_def del: dropWhile_eq_Cons_conv)
  qed
qed

lemma strtok_unfold:
  "strtok None LSH_TOK_DELIM save =
     (case dropWhile spec_delim save of
        [] \<Rightarrow> (None, [])
      | c # cs \<Rightarrow> (Some (c # takeWhile (\<lambda>c. \<not> spec_delim c) cs),
                   drop 1 (dropWhile (\<lambda>c. \<not> spec_delim c) cs)))"
proof (cases "dropWhile spec_delim save")
  case Nil
  then show ?thesis by (simp add: strtok_def in_delim del: dropWhile_eq_Nil_conv)
next
  case (Cons c cs)
  then have "\<not> spec_delim c"
    using hd_dropWhile [of spec_delim save] by auto
  with Cons show ?thesis by (simp add: strtok_def in_delim)
qed

lemma spec_tokens_unfold:
  "spec_tokens save =
     (case dropWhile spec_delim save of
        [] \<Rightarrow> []
      | c # cs \<Rightarrow> (c # takeWhile (\<lambda>c. \<not> spec_delim c) cs) #
                   spec_tokens (drop 1 (dropWhile (\<lambda>c. \<not> spec_delim c) cs)))"
proof (cases "dropWhile spec_delim save")
  case Nil
  have "spec_tokens save = spec_tokens (dropWhile spec_delim save)"
    by (simp only: spec_tokens_dropWhile)
  then show ?thesis unfolding Nil by simp
next
  case (Cons c cs)
  then have nd: "\<not> spec_delim c"
    using hd_dropWhile [of spec_delim save] by auto
  have "spec_tokens save = spec_tokens (dropWhile spec_delim save)"
    by (simp only: spec_tokens_dropWhile)
  then show ?thesis unfolding Cons using nd by (simp add: spec_tokens_word)
qed

lemma strtok_None: "spec_tokens save = [] \<Longrightarrow> strtok None LSH_TOK_DELIM save = (None, [])"
proof -
  assume a: "spec_tokens save = []"
  show ?thesis
  proof (cases "dropWhile spec_delim save")
    case Nil
    then show ?thesis by (subst strtok_unfold) (simp del: dropWhile_eq_Nil_conv)
  next
    case (Cons c cs)
    then have "spec_tokens save \<noteq> []"
      by (subst spec_tokens_unfold) (simp del: dropWhile_eq_Cons_conv)
    with a show ?thesis by simp
  qed
qed

lemma strtok_Some:
  "spec_tokens save = t # ts \<Longrightarrow>
     \<exists>save1. strtok None LSH_TOK_DELIM save = (Some t, save1) \<and> spec_tokens save1 = ts"
proof -
  assume a: "spec_tokens save = t # ts"
  show ?thesis
  proof (cases "dropWhile spec_delim save")
    case Nil
    then have "spec_tokens save = []"
      by (subst spec_tokens_unfold) (simp del: dropWhile_eq_Nil_conv)
    with a show ?thesis by simp
  next
    case (Cons c cs)
    have "spec_tokens save = (c # takeWhile (\<lambda>c. \<not> spec_delim c) cs) #
                   spec_tokens (drop 1 (dropWhile (\<lambda>c. \<not> spec_delim c) cs))"
      by (subst spec_tokens_unfold) (simp add: Cons del: dropWhile_eq_Cons_conv)
    with a have "t = c # takeWhile (\<lambda>c. \<not> spec_delim c) cs"
      and "ts = spec_tokens (drop 1 (dropWhile (\<lambda>c. \<not> spec_delim c) cs))"
      by simp_all
    then show ?thesis
      by (subst strtok_unfold) (simp add: Cons del: dropWhile_eq_Cons_conv)
  qed
qed

lemma strtok_rem:
  "strtok None LSH_TOK_DELIM save = (token1, save1) \<Longrightarrow>
     spec_tokens save = (case token1 of None \<Rightarrow> [] | Some t1 \<Rightarrow> t1 # spec_tokens save1)"
proof (cases "spec_tokens save")
  case Nil
  assume "strtok None LSH_TOK_DELIM save = (token1, save1)"
  with strtok_None [OF Nil] Nil show ?thesis by simp
next
  case (Cons t ts)
  assume "strtok None LSH_TOK_DELIM save = (token1, save1)"
  with strtok_Some [OF Cons] Cons show ?thesis by auto
qed

lemma strtok_first: "strtok (Some line) delim save = strtok None delim line"
  by (simp add: strtok_def)


lemma split_loop_ok:
  assumes "\<forall>t n. os_alloc sys t n"
    and "rem = (case token of None \<Rightarrow> [] | Some t \<Rightarrow> t # spec_tokens save)"
    and "length tokens = bufsize" and "position < bufsize"
    and "position + length rem + LSH_TOK_BUFSIZE \<le> INT_MAX"
  shows "\<exists>arr w'. split_loop sys bufsize position tokens token save w = (Ret arr, w')
           \<and> take (position + length rem + 1) arr =
               take position tokens @ map (\<lambda>t. Val (Some t)) rem @ [Val None]
           \<and> position + length rem < length arr
           \<and> w_stdin w' = w_stdin w \<and> alloc_only w w'"
  using assms(2-)
proof (induction rem arbitrary: token save tokens bufsize position w)
  case Nil
  then have tn: "token = None" by (cases token) simp_all
  let ?t1 = "tokens[position := Val None]"
  have st: "store tokens position None = Inr ?t1"
    using Nil.prems by (simp add: store_ok)
  have tk: "take (position + 1) ?t1 = take position tokens @ [Val None]"
    using Nil.prems take_Suc_update [of position tokens "Val None"] by simp
  have "split_loop sys bufsize position tokens token save w = (Ret ?t1, w)"
    using tn st by (subst split_loop.simps) simp
  with tk Nil.prems show ?case
    by (simp add: alloc_only_refl)
next
  case (Cons t ts)
  then have tok: "token = Some t" and ts: "ts = spec_tokens save"
    by (cases token; simp)+
  let ?t1 = "tokens[position := Val (Some t)]"
  have st: "store tokens position (Some t) = Inr ?t1"
    using Cons.prems by (simp add: store_ok)
  have tk: "take (position + 1) ?t1 = take position tokens @ [Val (Some t)]"
    using Cons.prems take_Suc_update [of position tokens "Val (Some t)"] by simp
  obtain token1 save1 where sk: "strtok None LSH_TOK_DELIM save = (token1, save1)"
    by (cases "strtok None LSH_TOK_DELIM save")
  have rem1: "ts = (case token1 of None \<Rightarrow> [] | Some t1 \<Rightarrow> t1 # spec_tokens save1)"
    using strtok_rem [OF sk] ts by simp
  have "\<exists>bufsize1 tokens1 w1.
          split_loop sys bufsize position tokens token save w =
            split_loop sys bufsize1 (position + 1) tokens1 token1 save1 w1
          \<and> w_stdin w1 = w_stdin w \<and> length tokens1 = bufsize1
          \<and> position + 1 < bufsize1 \<and> take (position + 1) tokens1 = take (position + 1) ?t1
          \<and> alloc_only w w1"
  proof (cases "position + 1 \<ge> bufsize")
    case True
    then have no: "\<not> bufsize + LSH_TOK_BUFSIZE > INT_MAX"
      using Cons.prems(4) by simp
    let ?tmp = "?t1 @ replicate (bufsize + LSH_TOK_BUFSIZE - length ?t1) Uninit"
    let ?w1 = "log_event (EvAlloc ((bufsize + LSH_TOK_BUFSIZE) * sizeof_ptr)) w"
    have re: "realloc sys ?t1 (bufsize + LSH_TOK_BUFSIZE) sizeof_ptr w = (Some ?tmp, ?w1)"
      using assms(1) Cons.prems(2) by (simp add: realloc_ok)
    have "split_loop sys bufsize position tokens token save w =
            split_loop sys (bufsize + LSH_TOK_BUFSIZE) (position + 1) ?tmp token1 save1 ?w1"
      using tok st True no re sk by (subst split_loop.simps) simp
    moreover have "alloc_only w ?w1" by (rule alloc_only_log)
    moreover have "take (position + 1) ?tmp = take (position + 1) ?t1"
      using Cons.prems(2,3) by simp
    ultimately show ?thesis
      using Cons.prems(2,3)
      by (intro exI [of _ "bufsize + LSH_TOK_BUFSIZE"] exI [of _ ?tmp] exI [of _ ?w1])
         (simp add: LSH_TOK_BUFSIZE_def)
  next
    case False
    then have "split_loop sys bufsize position tokens token save w =
            split_loop sys bufsize (position + 1) ?t1 token1 save1 w"
      using tok st sk by (subst split_loop.simps) simp
    with False Cons.prems(2) show ?thesis
      by (intro exI [of _ bufsize] exI [of _ ?t1] exI [of _ w]) (simp add: alloc_only_refl)
  qed
  then obtain bufsize1 tokens1 w1 where
    step: "split_loop sys bufsize position tokens token save w =
            split_loop sys bufsize1 (position + 1) tokens1 token1 save1 w1"
    and w1: "w_stdin w1 = w_stdin w" and len: "length tokens1 = bufsize1"
    and pos: "position + 1 < bufsize1"
    and pre: "take (position + 1) tokens1 = take (position + 1) ?t1"
    and fr: "alloc_only w w1"
    by blast
  have lim: "position + 1 + length ts + LSH_TOK_BUFSIZE \<le> INT_MAX"
    using Cons.prems(4) by simp
  from Cons.IH [OF rem1 len pos lim]
  obtain arr w' where
    r: "split_loop sys bufsize1 (position + 1) tokens1 token1 save1 w1 = (Ret arr, w')"
    and t: "take (position + 1 + length ts + 1) arr =
               take (position + 1) tokens1 @ map (\<lambda>t. Val (Some t)) ts @ [Val None]"
    and l: "position + 1 + length ts < length arr"
    and i: "w_stdin w' = w_stdin w1" and f: "alloc_only w1 w'"
    by blast
  have "take (position + length (t # ts) + 1) arr =
               take position tokens @ map (\<lambda>t. Val (Some t)) (t # ts) @ [Val None]"
    using t pre tk by simp
  moreover have "position + length (t # ts) < length arr" using l by simp
  moreover have "alloc_only w w'" using fr f by (rule alloc_only_trans)
  ultimately show ?case using step r i w1 by simp
qed

lemma malloc_ok:
  "os_alloc sys (tick w) (count * width) \<Longrightarrow>
     malloc sys count width w =
       (Some (replicate count Uninit), log_event (EvAlloc (count * width)) w)"
  by (simp add: malloc_def)

lemma lsh_split_line_ok:
  assumes "\<forall>t n. os_alloc sys t n"
    and "length (spec_tokens line) + LSH_TOK_BUFSIZE \<le> INT_MAX"
  shows "\<exists>arr w'. lsh_split_line sys line w = (Ret arr, w')
           \<and> take (length (spec_tokens line) + 1) arr =
               map (\<lambda>t. Val (Some t)) (spec_tokens line) @ [Val None]
           \<and> length (spec_tokens line) < length arr
           \<and> w_stdin w' = w_stdin w \<and> alloc_only w w'"
proof -
  let ?w1 = "log_event (EvAlloc (LSH_TOK_BUFSIZE * sizeof_ptr)) w"
  let ?tokens = "replicate LSH_TOK_BUFSIZE Uninit :: string option cell list"
  have m: "malloc sys LSH_TOK_BUFSIZE sizeof_ptr w = (Some ?tokens, ?w1)"
    using assms(1) by (simp add: malloc_ok)
  obtain token save where sk: "strtok None LSH_TOK_DELIM line = (token, save)"
    by (cases "strtok None LSH_TOK_DELIM line")
  have rem: "spec_tokens line = (case token of None \<Rightarrow> [] | Some t \<Rightarrow> t # spec_tokens save)"
    by (rule strtok_rem [OF sk])
  have eq: "lsh_split_line sys line w = split_loop sys LSH_TOK_BUFSIZE 0 ?tokens token save ?w1"
    using m sk by (simp add: lsh_split_line_def strtok_first)
  have "length ?tokens = LSH_TOK_BUFSIZE" "0 < LSH_TOK_BUFSIZE"
    "0 + length (spec_tokens line) + LSH_TOK_BUFSIZE \<le> INT_MAX"
    using assms(2) by (simp_all add: LSH_TOK_BUFSIZE_def)
  from split_loop_ok [OF assms(1) rem this, of ?w1]
  obtain arr w' where "split_loop sys LSH_TOK_BUFSIZE 0 ?tokens token save ?w1 = (Ret arr, w')"
    "take (length (spec_tokens line) + 1) arr =
       map (\<lambda>t. Val (Some t)) (spec_tokens line) @ [Val None]"
    "length (spec_tokens line) < length arr" "w_stdin w' = w_stdin ?w1" "alloc_only ?w1 w'"
    by auto
  then show ?thesis
    unfolding eq using alloc_only_trans [OF alloc_only_log, of _ _ w'] by auto
qed

lemma lsh_read_line_ok:
  assumes "\<forall>t n. os_alloc sys t n"
    and "w_stdin w = line @ rest" and "newline \<notin> set line"
    and "rest = [] \<or> hd rest = newline"
    and "length line + LSH_RL_BUFSIZE \<le> INT_MAX"
  shows "\<exists>buffer w'. lsh_read_line sys w = (Ret buffer, w')
           \<and> take (length line + 1) buffer = map Val line @ [Val NUL]
           \<and> length line < length buffer
           \<and> w_stdin w' = drop 1 rest \<and> alloc_only w w'"
proof -
  let ?w1 = "log_event (EvAlloc (LSH_RL_BUFSIZE * sizeof_char)) w"
  let ?buffer = "replicate LSH_RL_BUFSIZE Uninit :: char cell list"
  have m: "malloc sys LSH_RL_BUFSIZE sizeof_char w = (Some ?buffer, ?w1)"
    using assms(1) by (simp add: malloc_ok)
  have eq: "lsh_read_line sys w = read_loop sys LSH_RL_BUFSIZE 0 ?buffer ?w1"
    using m by (simp add: lsh_read_line_def)
  have "w_stdin ?w1 = line @ rest" "length ?buffer = LSH_RL_BUFSIZE" "0 < LSH_RL_BUFSIZE"
    "0 + length line + LSH_RL_BUFSIZE \<le> INT_MAX"
    using assms(2,5) by (simp_all add: LSH_RL_BUFSIZE_def)
  from read_loop_ok [OF assms(1) this(1) assms(3,4) this(2-)]
  obtain buffer w' where "read_loop sys LSH_RL_BUFSIZE 0 ?buffer ?w1 = (Ret buffer, w')"
    "take (length line + 1) buffer = map Val line @ [Val NUL]"
    "length line < length buffer" "w_stdin w' = drop 1 rest" "alloc_only ?w1 w'"
    by auto
  then show ?thesis
    unfolding eq using alloc_only_trans [OF alloc_only_log, of _ _ w'] by auto
qed

subsection \<open>What the Tokenizer returns, whenever it returns\<close>

lemma split_loop_result:
  "split_loop sys bufsize position tokens token save w = (Ret arr, w') \<Longrightarrow>
     rem = (case token of None \<Rightarrow> [] | Some t \<Rightarrow> t # spec_tokens save) \<Longrightarrow>
     length tokens = bufsize \<Longrightarrow> position < bufsize \<Longrightarrow>
     take (position + length rem + 1) arr =
       take position tokens @ map (\<lambda>t. Val (Some t)) rem @ [Val None]
     \<and> position + length rem < length arr"
proof (induction sys bufsize position tokens token save w arbitrary: rem
    rule: split_loop.induct)
  case (1 sys bufsize position tokens token save w)
  show ?case
  proof (cases token)
    case None
    let ?t1 = "tokens[position := Val None]"
    have st: "store tokens position None = Inr ?t1"
      using 1(5,6) by (simp add: store_ok)
    have "split_loop sys bufsize position tokens token save w = (Ret ?t1, w)"
      using None st by (subst split_loop.simps) simp
    with 1(3) have "arr = ?t1" by simp
    with None 1(4,5,6) take_Suc_update [of position tokens "Val None"] show ?thesis
      by simp
  next
    case (Some tok)
    let ?t1 = "tokens[position := Val (Some tok)]"
    have st: "store tokens position (Some tok) = Inr ?t1"
      using 1(5,6) by (simp add: store_ok)
    have tk: "take (position + 1) ?t1 = take position tokens @ [Val (Some tok)]"
      using 1(5,6) take_Suc_update [of position tokens "Val (Some tok)"] by simp
    obtain token1 save1 where sk: "strtok None LSH_TOK_DELIM save = (token1, save1)"
      by (cases "strtok None LSH_TOK_DELIM save")
    define rem1 where "rem1 = (case token1 of None \<Rightarrow> [] | Some t1 \<Rightarrow> t1 # spec_tokens save1)"
    have rem: "rem = tok # rem1"
      using 1(4) Some strtok_rem [OF sk] by (simp add: rem1_def)
    have "take (position + 1 + length rem1 + 1) arr =
            take (position + 1) ?t1 @ map (\<lambda>t. Val (Some t)) rem1 @ [Val None]
          \<and> position + 1 + length rem1 < length arr"
    proof (cases "position + 1 \<ge> bufsize")
      case grow: True
      show ?thesis
      proof (cases "bufsize + LSH_TOK_BUFSIZE > INT_MAX")
        case True
        with Some st grow have "split_loop sys bufsize position tokens token save w =
            (Undefined IntOverflow, w)"
          by (subst split_loop.simps) simp
        with 1(3) show ?thesis by simp
      next
        case no: False
        obtain r w1 where re: "realloc sys ?t1 (bufsize + LSH_TOK_BUFSIZE) sizeof_ptr w = (r, w1)"
          by (cases "realloc sys ?t1 (bufsize + LSH_TOK_BUFSIZE) sizeof_ptr w")
        show ?thesis
        proof (cases r)
          case None
          with Some st grow no re
          have "split_loop sys bufsize position tokens token save w =
              (ProcExit EXIT_FAILURE, alloc_error w1)"
            by (subst split_loop.simps) simp
          with 1(3) show ?thesis by simp
        next
          case tmp: (Some tmp)
          from realloc_cases [OF re] tmp 1(5)
          have len: "length tmp = bufsize + LSH_TOK_BUFSIZE"
            and pre: "take (length ?t1) tmp = ?t1"
            by auto
          have lt: "position + 1 < bufsize + LSH_TOK_BUFSIZE"
            using 1(6) by (simp add: LSH_TOK_BUFSIZE_def)
          have "split_loop sys bufsize position tokens token save w =
              split_loop sys (bufsize + LSH_TOK_BUFSIZE) (position + 1) tmp token1 save1 w1"
            using Some st grow no re tmp sk by (subst split_loop.simps) simp
          with 1(3) have r: "split_loop sys (bufsize + LSH_TOK_BUFSIZE) (position + 1) tmp
              token1 save1 w1 = (Ret arr, w')" by simp
          have "take (position + 1) ?t1 = take (position + 1) (take (length ?t1) tmp)"
            by (simp only: pre)
          also have "\<dots> = take (position + 1) tmp"
            using 1(5,6) by (simp add: min_def)
          finally have p2: "take (position + 1) tmp = take (position + 1) ?t1" by simp
          from 1(1) [OF Some st grow no re [symmetric] tmp sk [symmetric] r rem1_def len lt] p2
          show ?thesis by simp
        qed
      qed
    next
      case nogrow: False
      have "split_loop sys bufsize position tokens token save w =
              split_loop sys bufsize (position + 1) ?t1 token1 save1 w"
        using Some st nogrow sk by (subst split_loop.simps) simp
      with 1(3) have r: "split_loop sys bufsize (position + 1) ?t1 token1 save1 w = (Ret arr, w')"
        by simp
      have "length ?t1 = bufsize" "position + 1 < bufsize"
        using 1(5) nogrow by simp_all
      from 1(2) [OF Some st nogrow sk [symmetric] r rem1_def this]
      show ?thesis .
    qed
    with tk rem show ?thesis by simp
  qed
qed

lemma lsh_split_line_result:
  assumes "lsh_split_line sys line w = (Ret arr, w')"
  shows "take (length (spec_tokens line) + 1) arr =
           map (\<lambda>t. Val (Some t)) (spec_tokens line) @ [Val None]
         \<and> length (spec_tokens line) < length arr"
proof -
  obtain r w1 where m: "malloc sys LSH_TOK_BUFSIZE sizeof_ptr w = (r :: string option cell list option, w1)"
    by (cases "malloc sys LSH_TOK_BUFSIZE sizeof_ptr w :: string option cell list option \<times> world")
  obtain token save where sk: "strtok None LSH_TOK_DELIM line = (token, save)"
    by (cases "strtok None LSH_TOK_DELIM line")
  have rem: "spec_tokens line = (case token of None \<Rightarrow> [] | Some t \<Rightarrow> t # spec_tokens save)"
    by (rule strtok_rem [OF sk])
  from assms m have "r \<noteq> None"
    by (cases r) (auto simp: lsh_split_line_def)
  with malloc_cases [OF m] have r: "r = Some (replicate LSH_TOK_BUFSIZE Uninit)" by simp
  with assms m sk
  have "split_loop sys LSH_TOK_BUFSIZE 0 (replicate LSH_TOK_BUFSIZE Uninit) token save w1 = (Ret arr, w')"
    by (simp add: lsh_split_line_def strtok_first)
  from split_loop_result [OF this rem] show ?thesis
    by (simp add: LSH_TOK_BUFSIZE_def)
qed

lemma argv_of_prefix:
  "argv_of (map (\<lambda>t. Val (Some t)) ts @ Val None # junk) = Inr ts"
  by (induction ts) simp_all

lemma argv_of_take:
  assumes "take (length ts + 1) arr = map (\<lambda>t. Val (Some t)) ts @ [Val None]"
  shows "argv_of arr = Inr ts"
proof -
  have "take (length ts + 1) arr @ drop (length ts + 1) arr = arr"
    by (rule append_take_drop_id)
  then have "(map (\<lambda>t. Val (Some t)) ts @ [Val None]) @ drop (length ts + 1) arr = arr"
    unfolding assms .
  then have "arr = map (\<lambda>t. Val (Some t)) ts @ Val None # drop (length ts + 1) arr"
    by simp
  then show ?thesis using argv_of_prefix by metis
qed

lemma c_str_prefix:
  "c_str (map Val line @ Val NUL # junk) = Inr (takeWhile (\<lambda>c. c \<noteq> NUL) line)"
  by (induction line) simp_all

lemma c_str_take:
  assumes "take (length line + 1) buffer = map Val line @ [Val NUL]"
  shows "c_str buffer = Inr (takeWhile (\<lambda>c. c \<noteq> NUL) line)"
proof -
  have "take (length line + 1) buffer @ drop (length line + 1) buffer = buffer"
    by (rule append_take_drop_id)
  then have "(map Val line @ [Val NUL]) @ drop (length line + 1) buffer = buffer"
    unfolding assms .
  then have "buffer = map Val line @ Val NUL # drop (length line + 1) buffer"
    by simp
  then show ?thesis using c_str_prefix by metis
qed

lemma fields_no_delim: "f \<in> set (line_fields d s) \<Longrightarrow> c \<in> set f \<Longrightarrow> \<not> d c"
proof (induction s arbitrary: f)
  case Nil
  then show ?case by simp
next
  case (Cons a s)
  show ?case
  proof (cases "d a")
    case True
    with Cons show ?thesis by auto
  next
    case False
    obtain g gs where g: "line_fields d s = g # gs"
      by (cases "line_fields d s") (simp_all add: fields_unfold)
    with False Cons.prems have "f = a # g \<or> f \<in> set gs" by simp
    then show ?thesis
    proof
      assume "f = a # g"
      with Cons.prems(2) have "c = a \<or> c \<in> set g" by simp
      with False Cons.IH [of g] g show ?thesis by auto
    next
      assume "f \<in> set gs"
      with Cons.IH [of f] g Cons.prems(2) show ?thesis by simp
    qed
  qed
qed

lemma spec_tokens_nonempty: "[] \<notin> set (spec_tokens line)"
  by (simp add: spec_tokens_def)

lemma spec_tokens_no_delim: "t \<in> set (spec_tokens line) \<Longrightarrow> c \<in> set t \<Longrightarrow> \<not> spec_delim c"
  using fields_no_delim [of t spec_delim line c] by (simp add: spec_tokens_def)

lemma spec_tokens_all_delim: "list_all spec_delim line \<Longrightarrow> spec_tokens line = []"
  by (induction line) (simp_all add: spec_tokens_delim)

lemma concat_fields: "concat (line_fields d s) = filter (\<lambda>c. \<not> d c) s"
  by (induction s) (auto split: list.splits)

lemma length_le_concat: "[] \<notin> set xs \<Longrightarrow> length xs \<le> length (concat xs)"
proof (induction xs)
  case Nil
  then show ?case by simp
next
  case (Cons x xs)
  then have "1 \<le> length x" and "[] \<notin> set xs"
    by (cases x, auto)
  with Cons.IH have "1 \<le> length x" and "length xs \<le> length (concat xs)"
    by simp_all
  then have "Suc (length xs) \<le> length x + length (concat xs)"
    by linarith
  then show ?case by simp
qed

lemma concat_filter_nonempty: "concat (filter (\<lambda>f. f \<noteq> []) xs) = concat xs"
  by (induction xs) simp_all

lemma length_spec_tokens: "length (spec_tokens line) \<le> length line"
proof -
  have "length (spec_tokens line) \<le> length (concat (spec_tokens line))"
    by (rule length_le_concat [OF spec_tokens_nonempty])
  also have "concat (spec_tokens line) = filter (\<lambda>c. \<not> spec_delim c) line"
    by (simp add: spec_tokens_def concat_filter_nonempty concat_fields)
  also have "length \<dots> \<le> length line" by simp
  finally show ?thesis .
qed

subsection \<open>Laws of the tokens: words, gaps, leading and trailing delimiters\<close>

lemma spec_tokens_lead: "list_all spec_delim d \<Longrightarrow> spec_tokens (d @ s) = spec_tokens s"
  by (induction d) (simp_all add: spec_tokens_delim)

lemma spec_tokens_word_app:
  assumes "is_word w" and "s = [] \<or> spec_delim (hd s)"
  shows "spec_tokens (w @ s) = w # spec_tokens s"
proof -
  from assms(1) obtain c cs where w: "w = c # cs" and c: "\<not> spec_delim c"
    and cs: "\<forall>x\<in>set cs. \<not> spec_delim x"
    by (cases w) (auto simp: is_word_def list_all_iff)
  have s0: "takeWhile (\<lambda>c. \<not> spec_delim c) s = []"
    using assms(2) by (cases s) auto
  have s1: "dropWhile (\<lambda>c. \<not> spec_delim c) s = s"
    using assms(2) by (cases s) auto
  have t: "takeWhile (\<lambda>c. \<not> spec_delim c) (cs @ s) = cs"
    using cs s0 by (simp add: takeWhile_append2)
  have d: "dropWhile (\<lambda>c. \<not> spec_delim c) (cs @ s) = s"
    using cs s1 by (simp add: dropWhile_append2)
  have "spec_tokens (drop 1 s) = spec_tokens s"
    using assms(2) by (cases s) (simp_all add: spec_tokens_delim)
  with spec_tokens_word [OF c, of "cs @ s"] t d w show ?thesis
    by simp
qed

lemma line_fields_delim_app:
  "d c \<Longrightarrow> line_fields d (u @ c # v) = line_fields d u @ line_fields d v"
proof (induction u)
  case Nil
  then show ?case by simp
next
  case (Cons a u)
  obtain f fs where f: "line_fields d u = f # fs"
    by (cases "line_fields d u") (simp_all add: fields_unfold)
  with Cons show ?case by simp
qed

lemma spec_tokens_gap:
  assumes "is_gap g"
  shows "spec_tokens (u @ g @ v) = spec_tokens u @ spec_tokens v"
proof -
  from assms obtain c g' where g: "g = c # g'" and c: "spec_delim c"
    and g': "list_all spec_delim g'"
    by (cases g) (auto simp: is_gap_def)
  have "spec_tokens (u @ c # (g' @ v)) = spec_tokens u @ spec_tokens (g' @ v)"
    using line_fields_delim_app [of spec_delim c u "g' @ v"] c by (simp add: spec_tokens_def)
  with g spec_tokens_lead [OF g', of v] show ?thesis by simp
qed

lemma spec_tokens_single_word: "is_word w \<Longrightarrow> spec_tokens w = [w]"
  using spec_tokens_word_app [of w "[]"] by simp

lemma spec_tokens_weave:
  "list_all is_word ws \<Longrightarrow> list_all is_gap gs \<Longrightarrow> length gs = length ws - 1 \<Longrightarrow>
     list_all spec_delim trail \<Longrightarrow> spec_tokens (weave ws gs @ trail) = ws"
proof (induction ws gs rule: weave.induct)
  case (1 gs)
  then show ?case by (simp add: spec_tokens_all_delim)
next
  case (2 w gs)
  have "trail = [] \<or> spec_delim (hd trail)"
    using 2(4) by (cases trail) auto
  with 2 show ?case
    by (simp add: spec_tokens_word_app spec_tokens_all_delim)
next
  case (3 w v ws)
  then show ?case by simp
next
  case (4 w v ws g gs)
  then have g: "is_gap g" and w: "is_word w" by simp_all
  let ?rest = "weave (v # ws) gs @ trail"
  have "g @ ?rest = [] \<or> spec_delim (hd (g @ ?rest))"
    using g by (cases g) (auto simp: is_gap_def)
  then have "spec_tokens (w @ g @ ?rest) = w # spec_tokens (g @ ?rest)"
    by (rule spec_tokens_word_app [OF w])
  also have "spec_tokens (g @ ?rest) = spec_tokens ?rest"
    using g by (simp add: spec_tokens_lead is_gap_def)
  also have "spec_tokens ?rest = v # ws"
    using 4 by simp
  finally show ?case by simp
qed

lemma spec_tokens_join_sp: "list_all is_word ws \<Longrightarrow> spec_tokens (join_sp ws) = ws"
proof (induction ws rule: join_sp.induct)
  case 1
  then show ?case by simp
next
  case (2 w)
  then show ?case by (simp add: spec_tokens_single_word)
next
  case (3 w v ws)
  then have w: "is_word w" by simp
  have "spec_tokens (w @ CHR '' '' # join_sp (v # ws)) = w # spec_tokens (CHR '' '' # join_sp (v # ws))"
    by (rule spec_tokens_word_app [OF w]) (simp add: spec_delim_def)
  with 3 show ?case
    by (simp add: spec_tokens_delim spec_delim_def)
qed

lemma is_word_spec_tokens: "list_all is_word (spec_tokens line)"
  unfolding list_all_iff is_word_def
  using spec_tokens_nonempty [of line] spec_tokens_no_delim [of _ line] by auto

subsection \<open>The Tokenizer: tokens, sentinel and round trip\<close>

lemma os_grant_alloc: "\<forall>t n. os_alloc os_grant t n"
  by (simp add: os_grant_def)

text \<open>Claim C3. \<open>lsh_split_line\<close> splits on exactly space, tab, carriage return, newline
  and bell. Whenever it returns, the array holds the tokens of the specification
  (\<open>spec_tokens\<close>: the line cut at every delimiter, empty fields dropped), in order from index
  0, and the entry right after the last token is the null pointer, which is entry 0 when
  there is no token; the argument vector the array denotes is that list of tokens. No token
  is empty. A run of one or more delimiters separates like a single one, a leading or a
  trailing run adds no token, a string without delimiter is one token, and a line of
  delimiters only has no token. It returns whenever every allocation succeeds and the line
  is short enough for \<open>bufsize\<close> to stay in the range of \<open>int\<close>.\<close>

theorem lsh_split_line_tokens:
  "(c \<in> set LSH_TOK_DELIM \<longleftrightarrow>
      c = CHR '' '' \<or> c = CHR 0x09 \<or> c = CHR 0x0D \<or> c = CHR 0x0A \<or> c = CHR 0x07)
   \<and> (lsh_split_line sys line w = (Ret arr, w') \<longrightarrow>
        take (length (spec_tokens line) + 1) arr =
          map (\<lambda>t. Val (Some t)) (spec_tokens line) @ [Val None]
        \<and> arr ! length (spec_tokens line) = Val None
        \<and> argv_of arr = Inr (spec_tokens line))
   \<and> [] \<notin> set (spec_tokens line)
   \<and> (is_gap g \<longrightarrow> spec_tokens (u @ g @ v) = spec_tokens u @ spec_tokens v
        \<and> spec_tokens (g @ v) = spec_tokens v \<and> spec_tokens (u @ g) = spec_tokens u)
   \<and> (is_word x \<longrightarrow> spec_tokens x = [x])
   \<and> (list_all spec_delim line \<longrightarrow> spec_tokens line = [])
   \<and> ((\<forall>t n. os_alloc sys t n) \<and> length line + LSH_TOK_BUFSIZE \<le> INT_MAX \<longrightarrow>
        (\<exists>arr w'. lsh_split_line sys line w = (Ret arr, w')))"
proof (intro conjI impI)
  show "c \<in> set LSH_TOK_DELIM \<longleftrightarrow>
      c = CHR '' '' \<or> c = CHR 0x09 \<or> c = CHR 0x0D \<or> c = CHR 0x0A \<or> c = CHR 0x07"
    by (simp add: in_delim spec_delim_def)
  show "[] \<notin> set (spec_tokens line)"
    by (rule spec_tokens_nonempty)
  {
    assume r: "lsh_split_line sys line w = (Ret arr, w')"
    from lsh_split_line_result [OF r]
    have t: "take (length (spec_tokens line) + 1) arr =
          map (\<lambda>t. Val (Some t)) (spec_tokens line) @ [Val None]"
      and l: "length (spec_tokens line) < length arr"
      by simp_all
    show "take (length (spec_tokens line) + 1) arr =
          map (\<lambda>t. Val (Some t)) (spec_tokens line) @ [Val None]"
      by (rule t)
    show "argv_of arr = Inr (spec_tokens line)"
      by (rule argv_of_take [OF t])
    have "arr ! length (spec_tokens line) =
            take (length (spec_tokens line) + 1) arr ! length (spec_tokens line)"
      by simp
    also have "\<dots> = Val None"
      unfolding t by (simp add: nth_append)
    finally show "arr ! length (spec_tokens line) = Val None" .
  }
  {
    assume g: "is_gap g"
    show "spec_tokens (u @ g @ v) = spec_tokens u @ spec_tokens v"
      by (rule spec_tokens_gap [OF g])
    show "spec_tokens (g @ v) = spec_tokens v"
      using g by (simp add: is_gap_def spec_tokens_lead)
    show "spec_tokens (u @ g) = spec_tokens u"
      using spec_tokens_gap [OF g, of u "[]"] by simp
  }
  {
    assume "is_word x"
    then show "spec_tokens x = [x]" by (rule spec_tokens_single_word)
  }
  {
    assume "list_all spec_delim line"
    then show "spec_tokens line = []" by (rule spec_tokens_all_delim)
  }
  {
    assume a: "(\<forall>t n. os_alloc sys t n) \<and> length line + LSH_TOK_BUFSIZE \<le> INT_MAX"
    then have "length (spec_tokens line) + LSH_TOK_BUFSIZE \<le> INT_MAX"
      using length_spec_tokens [of line] by simp
    with a lsh_split_line_ok [of sys line w]
    show "\<exists>arr w'. lsh_split_line sys line w = (Ret arr, w')" by blast
  }
qed

theorem lsh_split_line_tokens_witness:
  "(\<exists>arr w'. lsh_split_line os_grant ('' ls  -la'' @ [CHR 0x09, CHR '' '']) world0 = (Ret arr, w')
     \<and> take 3 arr = [Val (Some ''ls''), Val (Some ''-la''), Val None]
     \<and> arr ! 2 = Val None)
   \<and> is_gap ([CHR 0x09] @ ''  '')
   \<and> spec_tokens (''ls'' @ ([CHR 0x09] @ ''  '') @ ''-la'') = [''ls'', ''-la'']
   \<and> spec_tokens (([CHR 0x09] @ ''  '') @ ''ls'') = [''ls'']
   \<and> spec_tokens (''ls'' @ ([CHR 0x09] @ ''  '')) = [''ls'']
   \<and> is_word ''ls'' \<and> is_word ''-la''
   \<and> list_all spec_delim ([CHR 0x0D] @ '' '' @ [CHR 0x07]) \<and> spec_tokens ([CHR 0x0D] @ '' '' @ [CHR 0x07]) = []"
proof -
  let ?g = "[CHR 0x09] @ ''  ''"
  have gw: "is_gap ?g" "is_word ''ls''" "is_word ''-la''"
    "list_all spec_delim ([CHR 0x0D] @ '' '' @ [CHR 0x07])"
    by (simp_all add: is_gap_def is_word_def spec_delim_def)
  have w1: "spec_tokens ''ls'' = [''ls'']"
    using lsh_split_line_tokens [of _ os_grant _ world0 _ _ ?g _ _ "''ls''"] gw by blast
  have w2: "spec_tokens ''-la'' = [''-la'']"
    using lsh_split_line_tokens [of _ os_grant _ world0 _ _ ?g _ _ "''-la''"] gw by blast
  have laws: "spec_tokens (''ls'' @ ?g @ ''-la'') = [''ls'', ''-la'']"
    "spec_tokens (?g @ ''ls'') = [''ls'']" "spec_tokens (''ls'' @ ?g) = [''ls'']"
    using lsh_split_line_tokens [of _ os_grant _ world0 _ _ ?g "''ls''" "''-la''"]
      lsh_split_line_tokens [of _ os_grant _ world0 _ _ ?g _ "''ls''"]
      lsh_split_line_tokens [of _ os_grant _ world0 _ _ ?g "''ls''"] gw(1) w1 w2
    by simp_all
  have none: "spec_tokens ([CHR 0x0D] @ '' '' @ [CHR 0x07]) = []"
    using lsh_split_line_tokens [of _ os_grant "[CHR 0x0D] @ '' '' @ [CHR 0x07]" world0] gw(4)
    by blast
  let ?line = "'' ls  -la'' @ [CHR 0x09, CHR '' '']"
  have st: "spec_tokens ?line = [''ls'', ''-la'']"
    by (simp add: spec_tokens_def spec_delim_def)
  have "length ?line + LSH_TOK_BUFSIZE \<le> INT_MAX"
    by (simp add: LSH_TOK_BUFSIZE_def INT_MAX_def)
  with os_grant_alloc lsh_split_line_tokens [of _ os_grant ?line world0]
  obtain arr w' where r: "lsh_split_line os_grant ?line world0 = (Ret arr, w')"
    by blast
  with lsh_split_line_tokens [of _ os_grant ?line world0 arr w']
  have "take (length (spec_tokens ?line) + 1) arr =
          map (\<lambda>t. Val (Some t)) (spec_tokens ?line) @ [Val None]
        \<and> arr ! length (spec_tokens ?line) = Val None"
    by blast
  then have "take 3 arr = [Val (Some ''ls''), Val (Some ''-la''), Val None] \<and> arr ! 2 = Val None"
    unfolding st by (simp add: eval_nat_numeral)
  with r have "\<exists>arr w'.
      lsh_split_line os_grant ('' ls  -la'' @ [CHR 0x09, CHR '' '']) world0 = (Ret arr, w')
      \<and> take 3 arr = [Val (Some ''ls''), Val (Some ''-la''), Val None]
      \<and> arr ! 2 = Val None"
    by blast
  with gw laws none show ?thesis by blast
qed

lemma line_fields_cong:
  "\<forall>c\<in>set line. d1 c = d2 c \<Longrightarrow> line_fields d1 line = line_fields d2 line"
  by (induction line) simp_all

lemma spec_words_tokens:
  assumes "list_all (\<lambda>c. c \<noteq> CHR 0x07 \<and> c \<noteq> CHR 0x0B \<and> c \<noteq> CHR 0x0C) line"
  shows "spec_words line = spec_tokens line"
proof -
  have "\<forall>c\<in>set line. spec_whitespace c = spec_delim c"
    using assms by (auto simp: list_all_iff spec_whitespace_def spec_delim_def)
  then have "line_fields spec_whitespace line = line_fields spec_delim line"
    by (rule line_fields_cong)
  then show ?thesis by (simp add: spec_words_def spec_tokens_def)
qed

lemma split_args_ok:
  assumes "\<forall>t n. os_alloc sys t n"
    and "length (spec_tokens line) + LSH_TOK_BUFSIZE \<le> INT_MAX"
  shows "split_args sys line w = Some (spec_tokens line)"
proof -
  from lsh_split_line_ok [OF assms, of w]
  obtain arr w' where r: "lsh_split_line sys line w = (Ret arr, w')"
    and t: "take (length (spec_tokens line) + 1) arr =
               map (\<lambda>t. Val (Some t)) (spec_tokens line) @ [Val None]"
    by blast
  have "argv_of arr = Inr (spec_tokens line)"
    by (rule argv_of_take [OF t])
  with r show ?thesis by (simp add: split_args_def)
qed

text \<open>Claim C4, as amended. Let the line be \<open>N\<close> words separated by gaps, with delimiters
  allowed in front and behind, \<open>N\<close> being 0 or more; a word is a non-empty string without a
  delimiter of the program (space, tab, carriage return, newline, bell) and a gap a
  non-empty run of these delimiters. Whenever \<open>lsh_split_line\<close> returns on that line, the
  first \<open>N\<close> entries of the array are the \<open>N\<close> words in order and entry \<open>N\<close> is the null pointer,
  so joining the entries with single spaces gives the words joined with single spaces;
  tokenizing that joined line gives the same words again; it returns whenever every
  allocation succeeds and \<open>N + LSH_TOK_BUFSIZE\<close> is in the range of \<open>int\<close>; and when the line
  has no bell, vertical tab or form feed, the \<open>N\<close> words are its whitespace-separated
  words.\<close>

theorem lsh_split_line_round_trip:
  assumes "list_all is_word ws" and "list_all is_gap gs" and "length gs = length ws - 1"
    and "list_all spec_delim lead" and "list_all spec_delim trail"
    and "line = lead @ weave ws gs @ trail"
  shows "(lsh_split_line sys line w = (Ret arr, w') \<longrightarrow>
           take (length ws + 1) arr = map (\<lambda>t. Val (Some t)) ws @ [Val None]
           \<and> argv_of arr = Inr ws
           \<and> (\<forall>toks. argv_of arr = Inr toks \<longrightarrow> join_sp toks = join_sp ws))
       \<and> (lsh_split_line sys (join_sp ws) w = (Ret arr2, w2) \<longrightarrow> argv_of arr2 = Inr ws)
       \<and> ((\<forall>t n. os_alloc sys t n) \<and> length ws + LSH_TOK_BUFSIZE \<le> INT_MAX \<longrightarrow>
           (\<exists>arr w'. lsh_split_line sys line w = (Ret arr, w')))
       \<and> (list_all (\<lambda>c. c \<noteq> CHR 0x07 \<and> c \<noteq> CHR 0x0B \<and> c \<noteq> CHR 0x0C) line \<longrightarrow>
           spec_words line = ws)"
proof -
  have st: "spec_tokens line = ws"
    using spec_tokens_weave [OF assms(1,2,3,5)] spec_tokens_lead [OF assms(4)] assms(6)
    by simp
  have sj: "spec_tokens (join_sp ws) = ws"
    by (rule spec_tokens_join_sp [OF assms(1)])
  show ?thesis
  proof (intro conjI impI)
    assume r: "lsh_split_line sys line w = (Ret arr, w')"
    from lsh_split_line_result [OF r]
    show t: "take (length ws + 1) arr = map (\<lambda>t. Val (Some t)) ws @ [Val None]"
      unfolding st by simp
    then show a: "argv_of arr = Inr ws" by (rule argv_of_take)
    then show "\<forall>toks. argv_of arr = Inr toks \<longrightarrow> join_sp toks = join_sp ws" by simp
  next
    assume r: "lsh_split_line sys (join_sp ws) w = (Ret arr2, w2)"
    from lsh_split_line_result [OF r]
    have "take (length ws + 1) arr2 = map (\<lambda>t. Val (Some t)) ws @ [Val None]"
      unfolding sj by simp
    then show "argv_of arr2 = Inr ws" by (rule argv_of_take)
  next
    assume "(\<forall>t n. os_alloc sys t n) \<and> length ws + LSH_TOK_BUFSIZE \<le> INT_MAX"
    with lsh_split_line_ok [of sys line w]
    show "\<exists>arr w'. lsh_split_line sys line w = (Ret arr, w')"
      unfolding st by blast
  next
    assume "list_all (\<lambda>c. c \<noteq> CHR 0x07 \<and> c \<noteq> CHR 0x0B \<and> c \<noteq> CHR 0x0C) line"
    then show "spec_words line = ws"
      unfolding st [symmetric] by (rule spec_words_tokens)
  qed
qed

theorem lsh_split_line_round_trip_witness:
  "list_all is_word [''echo'', ''a'', ''b''] \<and> list_all is_gap [[CHR 0x09], ''   '']
   \<and> (\<exists>arr w'. lsh_split_line os_grant ('' echo'' @ [CHR 0x09] @ ''a   b '') world0 = (Ret arr, w')
        \<and> take 4 arr = [Val (Some ''echo''), Val (Some ''a''), Val (Some ''b''), Val None]
        \<and> argv_of arr = Inr [''echo'', ''a'', ''b''])
   \<and> join_sp [''echo'', ''a'', ''b''] = ''echo a b''
   \<and> (\<exists>arr2 w2. lsh_split_line os_grant ''echo a b'' world0 = (Ret arr2, w2)
        \<and> argv_of arr2 = Inr [''echo'', ''a'', ''b''])
   \<and> spec_words ('' echo'' @ [CHR 0x09] @ ''a   b '') = [''echo'', ''a'', ''b'']
   \<and> (\<exists>arr w'. lsh_split_line os_grant ([CHR 0x09] @ ''  '') world0 = (Ret arr, w')
        \<and> take 1 arr = [Val None] \<and> argv_of arr = Inr [])"
proof -
  let ?ws = "[''echo'', ''a'', ''b'']" and ?gs = "[[CHR 0x09], ''   '']"
  let ?line = "'' echo'' @ [CHR 0x09] @ ''a   b ''"
  have h: "list_all is_word ?ws" "list_all is_gap ?gs" "length ?gs = length ?ws - 1"
    "list_all spec_delim '' ''" "list_all spec_delim '' ''"
    "?line = '' '' @ weave ?ws ?gs @ '' ''"
    by (simp_all add: is_word_def is_gap_def spec_delim_def)
  note rt = lsh_split_line_round_trip [OF h, of os_grant world0]
  have "(\<forall>t n. os_alloc os_grant t n) \<and> length ?ws + LSH_TOK_BUFSIZE \<le> INT_MAX"
    by (simp add: os_grant_def LSH_TOK_BUFSIZE_def INT_MAX_def)
  with rt obtain arr w' where r: "lsh_split_line os_grant ?line world0 = (Ret arr, w')"
    by blast
  with rt [of arr w'] have "take (length ?ws + 1) arr = map (\<lambda>t. Val (Some t)) ?ws @ [Val None]"
    and "argv_of arr = Inr ?ws"
    by blast+
  then have "take 4 arr = [Val (Some ''echo''), Val (Some ''a''), Val (Some ''b''), Val None]
        \<and> argv_of arr = Inr ?ws"
    by (simp add: eval_nat_numeral)
  with r have first: "\<exists>arr w'.
      lsh_split_line os_grant ('' echo'' @ [CHR 0x09] @ ''a   b '') world0 = (Ret arr, w')
      \<and> take 4 arr = [Val (Some ''echo''), Val (Some ''a''), Val (Some ''b''), Val None]
      \<and> argv_of arr = Inr ?ws"
    by blast
  have j: "join_sp ?ws = ''echo a b''" by simp
  have "length (spec_tokens ''echo a b'') + LSH_TOK_BUFSIZE \<le> INT_MAX"
    using length_spec_tokens [of "''echo a b''"] by (simp add: LSH_TOK_BUFSIZE_def INT_MAX_def)
  with lsh_split_line_ok [OF os_grant_alloc, of "''echo a b''" world0]
  obtain arr2 w2 where r2: "lsh_split_line os_grant ''echo a b'' world0 = (Ret arr2, w2)"
    by blast
  with rt [of _ _ arr2 w2] have "argv_of arr2 = Inr ?ws"
    unfolding j by blast
  with r2 have second: "\<exists>arr2 w2. lsh_split_line os_grant ''echo a b'' world0 = (Ret arr2, w2)
        \<and> argv_of arr2 = Inr ?ws"
    by blast
  have "list_all (\<lambda>c. c \<noteq> CHR 0x07 \<and> c \<noteq> CHR 0x0B \<and> c \<noteq> CHR 0x0C) ?line"
    by simp
  with rt have third: "spec_words ?line = ?ws" by blast
  let ?blank = "[CHR 0x09] @ ''  ''"
  have h0: "list_all is_word []" "list_all is_gap []" "length ([] :: string list) = length ([] :: string list) - 1"
    "list_all spec_delim ?blank" "list_all spec_delim []"
    "?blank = ?blank @ weave [] [] @ []"
    by (simp_all add: spec_delim_def)
  note rt0 = lsh_split_line_round_trip [OF h0, of os_grant world0]
  have "(\<forall>t n. os_alloc os_grant t n) \<and> length ([] :: string list) + LSH_TOK_BUFSIZE \<le> INT_MAX"
    by (simp add: os_grant_def LSH_TOK_BUFSIZE_def INT_MAX_def)
  with rt0 obtain arr0 w0 where r0: "lsh_split_line os_grant ?blank world0 = (Ret arr0, w0)"
    by blast
  with rt0 [of arr0 w0] have "take 1 arr0 = [Val None] \<and> argv_of arr0 = Inr []"
    by simp
  with r0 have fourth: "\<exists>arr w'. lsh_split_line os_grant ([CHR 0x09] @ ''  '') world0 = (Ret arr, w')
        \<and> take 1 arr = [Val None] \<and> argv_of arr = Inr []"
    by blast
  from first second third fourth j h(1,2) show ?thesis by blast
qed

text \<open>The claim with whitespace as it is commonly understood does not hold. A vertical tab
  is whitespace and no delimiter of the program: the line \<open>a\<close>, vertical tab, \<open>b\<close> has two
  whitespace-separated words and \<open>lsh_split_line\<close> returns one entry. A bell is a delimiter
  of the program and no whitespace: the line \<open>a\<close>, bell, \<open>b\<close> is one whitespace-separated
  word and \<open>lsh_split_line\<close> returns two entries.\<close>

theorem lsh_split_line_round_trip_counterexample:
  "spec_words (''a'' @ [CHR 0x0B] @ ''b'') = [''a'', ''b'']
   \<and> split_args os_grant (''a'' @ [CHR 0x0B] @ ''b'') world0 = Some [''a'' @ [CHR 0x0B] @ ''b'']
   \<and> spec_words (''a'' @ [CHR 0x07] @ ''b'') = [''a'' @ [CHR 0x07] @ ''b'']
   \<and> split_args os_grant (''a'' @ [CHR 0x07] @ ''b'') world0 = Some [''a'', ''b'']"
proof -
  have v: "spec_tokens (''a'' @ [CHR 0x0B] @ ''b'') = [''a'' @ [CHR 0x0B] @ ''b'']"
    and b: "spec_tokens (''a'' @ [CHR 0x07] @ ''b'') = [''a'', ''b'']"
    by (simp_all add: spec_tokens_def spec_delim_def)
  have "split_args os_grant (''a'' @ [CHR 0x0B] @ ''b'') world0 =
          Some (spec_tokens (''a'' @ [CHR 0x0B] @ ''b''))"
    by (rule split_args_ok [OF os_grant_alloc])
       (use length_spec_tokens [of "''a'' @ [CHR 0x0B] @ ''b''"] in
         \<open>simp add: LSH_TOK_BUFSIZE_def INT_MAX_def\<close>)
  moreover have "split_args os_grant (''a'' @ [CHR 0x07] @ ''b'') world0 =
          Some (spec_tokens (''a'' @ [CHR 0x07] @ ''b''))"
    by (rule split_args_ok [OF os_grant_alloc])
       (use length_spec_tokens [of "''a'' @ [CHR 0x07] @ ''b''"] in
         \<open>simp add: LSH_TOK_BUFSIZE_def INT_MAX_def\<close>)
  moreover have "spec_words (''a'' @ [CHR 0x0B] @ ''b'') = [''a'', ''b'']"
    "spec_words (''a'' @ [CHR 0x07] @ ''b'') = [''a'' @ [CHR 0x07] @ ''b'']"
    by (simp_all add: spec_words_def spec_whitespace_def)
  ultimately show ?thesis unfolding v b by simp
qed

subsection \<open>What the Line Reader returns, whenever it returns\<close>

lemma read_loop_result:
  "read_loop sys bufsize position buffer w = (Ret buffer', w') \<Longrightarrow>
     w_stdin w = cs \<Longrightarrow> length buffer = bufsize \<Longrightarrow> position < bufsize \<Longrightarrow>
     take (position + length (takeWhile (\<lambda>c. c \<noteq> newline) cs) + 1) buffer' =
       take position buffer @ map Val (takeWhile (\<lambda>c. c \<noteq> newline) cs) @ [Val NUL]
     \<and> position + length (takeWhile (\<lambda>c. c \<noteq> newline) cs) < length buffer'
     \<and> w_stdin w' = drop 1 (dropWhile (\<lambda>c. c \<noteq> newline) cs)"
proof (induction cs arbitrary: w buffer bufsize position)
  case Nil
  let ?b1 = "buffer[position := Val NUL]"
  have "read_loop sys bufsize position buffer w = (Ret ?b1, w)"
    using Nil.prems by (subst read_loop.simps) (simp add: getchar_def store_ok)
  with Nil.prems(1) have "buffer' = ?b1" "w' = w" by simp_all
  with Nil.prems take_Suc_update [of position buffer "Val NUL"] show ?case by simp
next
  case (Cons c cs)
  let ?w1 = "w\<lparr>w_stdin := cs\<rparr>"
  have g: "getchar w = (Some c, ?w1)"
    using Cons.prems(2) by (simp add: getchar_def)
  show ?case
  proof (cases "c = newline")
    case True
    let ?b1 = "buffer[position := Val NUL]"
    have "read_loop sys bufsize position buffer w = (Ret ?b1, ?w1)"
      using g True Cons.prems by (subst read_loop.simps) (simp add: store_ok)
    with Cons.prems(1) have "buffer' = ?b1" "w' = ?w1" by simp_all
    with True Cons.prems take_Suc_update [of position buffer "Val NUL"] show ?thesis by simp
  next
    case False
    let ?b1 = "buffer[position := Val c]"
    let ?l = "takeWhile (\<lambda>c. c \<noteq> newline) cs"
    have st: "store buffer position c = Inr ?b1"
      using Cons.prems by (simp add: store_ok)
    have tk: "take (position + 1) ?b1 = take position buffer @ [Val c]"
      using Cons.prems take_Suc_update [of position buffer "Val c"] by simp
    have "take (position + 1 + length ?l + 1) buffer' =
            take (position + 1) ?b1 @ map Val ?l @ [Val NUL]
          \<and> position + 1 + length ?l < length buffer'
          \<and> w_stdin w' = drop 1 (dropWhile (\<lambda>c. c \<noteq> newline) cs)"
    proof (cases "position + 1 \<ge> bufsize")
      case grow: True
      show ?thesis
      proof (cases "bufsize + LSH_RL_BUFSIZE > INT_MAX")
        case True
        with g False st grow
        have "read_loop sys bufsize position buffer w = (Undefined IntOverflow, ?w1)"
          by (subst read_loop.simps) simp
        with Cons.prems(1) show ?thesis by simp
      next
        case no: False
        obtain r w2 where re: "realloc sys ?b1 (bufsize + LSH_RL_BUFSIZE) sizeof_char ?w1 = (r, w2)"
          by (cases "realloc sys ?b1 (bufsize + LSH_RL_BUFSIZE) sizeof_char ?w1")
        show ?thesis
        proof (cases r)
          case None
          with g False st grow no re
          have "read_loop sys bufsize position buffer w = (ProcExit EXIT_FAILURE, alloc_error w2)"
            by (subst read_loop.simps) simp
          with Cons.prems(1) show ?thesis by simp
        next
          case (Some tmp)
          from realloc_cases [OF re] Some Cons.prems(3)
          have len: "length tmp = bufsize + LSH_RL_BUFSIZE"
            and pre: "take (length ?b1) tmp = ?b1" and w2: "w_stdin w2 = cs"
            by auto
          have lt: "position + 1 < bufsize + LSH_RL_BUFSIZE"
            using Cons.prems(4) by (simp add: LSH_RL_BUFSIZE_def)
          have "read_loop sys bufsize position buffer w =
              read_loop sys (bufsize + LSH_RL_BUFSIZE) (position + 1) tmp w2"
            using g False st grow no re Some by (subst read_loop.simps) simp
          with Cons.prems(1)
          have r: "read_loop sys (bufsize + LSH_RL_BUFSIZE) (position + 1) tmp w2 = (Ret buffer', w')"
            by simp
          have "take (position + 1) ?b1 = take (position + 1) (take (length ?b1) tmp)"
            by (simp only: pre)
          also have "\<dots> = take (position + 1) tmp"
            using Cons.prems(3,4) by (simp add: min_def)
          finally have p2: "take (position + 1) tmp = take (position + 1) ?b1" by simp
          from Cons.IH [OF r w2 len lt] p2 show ?thesis by simp
        qed
      qed
    next
      case nogrow: False
      have "read_loop sys bufsize position buffer w = read_loop sys bufsize (position + 1) ?b1 ?w1"
        using g False st nogrow by (subst read_loop.simps) simp
      with Cons.prems(1)
      have r: "read_loop sys bufsize (position + 1) ?b1 ?w1 = (Ret buffer', w')" by simp
      have "w_stdin ?w1 = cs" "length ?b1 = bufsize" "position + 1 < bufsize"
        using Cons.prems nogrow by simp_all
      from Cons.IH [OF r this] show ?thesis .
    qed
    with tk False show ?thesis by simp
  qed
qed

lemma lsh_read_line_result:
  assumes "lsh_read_line sys w = (Ret buffer, w')"
  shows "take (length (takeWhile (\<lambda>c. c \<noteq> newline) (w_stdin w)) + 1) buffer =
           map Val (takeWhile (\<lambda>c. c \<noteq> newline) (w_stdin w)) @ [Val NUL]
         \<and> length (takeWhile (\<lambda>c. c \<noteq> newline) (w_stdin w)) < length buffer
         \<and> w_stdin w' = drop 1 (dropWhile (\<lambda>c. c \<noteq> newline) (w_stdin w))"
proof -
  obtain r w1 where m: "malloc sys LSH_RL_BUFSIZE sizeof_char w = (r :: char cell list option, w1)"
    by (cases "malloc sys LSH_RL_BUFSIZE sizeof_char w :: char cell list option \<times> world")
  from assms m have "r \<noteq> None"
    by (cases r) (auto simp: lsh_read_line_def)
  with malloc_cases [OF m] have r: "r = Some (replicate LSH_RL_BUFSIZE Uninit)"
    and w1: "w_stdin w1 = w_stdin w" by simp_all
  with assms m
  have "read_loop sys LSH_RL_BUFSIZE 0 (replicate LSH_RL_BUFSIZE Uninit) w1 = (Ret buffer, w')"
    by (simp add: lsh_read_line_def)
  from read_loop_result [OF this w1] show ?thesis
    by (simp add: LSH_RL_BUFSIZE_def)
qed

lemma lsh_read_line_returns:
  assumes "\<forall>t n. os_alloc sys t n"
    and "length (takeWhile (\<lambda>c. c \<noteq> newline) (w_stdin w)) + LSH_RL_BUFSIZE \<le> INT_MAX"
  shows "\<exists>buffer w'. lsh_read_line sys w = (Ret buffer, w') \<and> alloc_only w w'"
proof -
  let ?l = "takeWhile (\<lambda>c. c \<noteq> newline) (w_stdin w)"
  let ?r = "dropWhile (\<lambda>c. c \<noteq> newline) (w_stdin w)"
  have a: "w_stdin w = ?l @ ?r" by simp
  have b: "newline \<notin> set ?l" by (auto dest: set_takeWhileD)
  have c: "?r = [] \<or> hd ?r = newline"
    using hd_dropWhile [of "\<lambda>c. c \<noteq> newline" "w_stdin w"] by auto
  from lsh_read_line_ok [OF assms(1) a b c assms(2)] show ?thesis by blast
qed

lemma takeWhile_replicate_nl:
  "c \<noteq> newline \<Longrightarrow>
     takeWhile (\<lambda>x. x \<noteq> newline) (replicate n c @ newline # rest) = replicate n c"
  by (induction n) auto

lemma spec_tokens_replicate:
  "spec_tokens (concat (replicate n ''a '')) = replicate n ''a''"
  by (induction n) (simp_all add: spec_tokens_word spec_tokens_delim spec_delim_def)


text \<open>Claim C2. Every store of the two functions goes through \<open>store\<close>, which is defined only
  at an index below the length of the array it writes to. For every content of standard
  input, every line and every behaviour of the allocator, neither function ever stores
  outside its array: not a character, not a token, not the final terminator, not the final
  null pointer. Whenever \<open>lsh_read_line\<close> returns, the buffer holds the characters of the
  input up to the first newline (or the end of input), all of them and in order, then the
  terminator; whenever \<open>lsh_split_line\<close> returns, the array holds all the tokens in order,
  then the null pointer. Both return whenever every allocation succeeds and the count
  leaves \<open>bufsize\<close> in the range of \<open>int\<close>; a count that is a multiple of the initial capacity
  is no exception.\<close>

theorem stores_within_capacity:
  "fst (lsh_read_line sys w) \<noteq> Undefined OutOfBounds
   \<and> fst (lsh_split_line sys line w) \<noteq> Undefined OutOfBounds
   \<and> (lsh_read_line sys w = (Ret buffer, w1) \<longrightarrow>
        take (length (takeWhile (\<lambda>c. c \<noteq> newline) (w_stdin w)) + 1) buffer =
          map Val (takeWhile (\<lambda>c. c \<noteq> newline) (w_stdin w)) @ [Val NUL]
        \<and> length (takeWhile (\<lambda>c. c \<noteq> newline) (w_stdin w)) < length buffer)
   \<and> (lsh_split_line sys line w = (Ret arr, w2) \<longrightarrow>
        take (length (spec_tokens line) + 1) arr =
          map (\<lambda>t. Val (Some t)) (spec_tokens line) @ [Val None]
        \<and> length (spec_tokens line) < length arr)
   \<and> ((\<forall>t n. os_alloc sys t n)
        \<and> length (takeWhile (\<lambda>c. c \<noteq> newline) (w_stdin w)) + LSH_RL_BUFSIZE \<le> INT_MAX \<longrightarrow>
        (\<exists>buffer w1. lsh_read_line sys w = (Ret buffer, w1)))
   \<and> ((\<forall>t n. os_alloc sys t n) \<and> length (spec_tokens line) + LSH_TOK_BUFSIZE \<le> INT_MAX \<longrightarrow>
        (\<exists>arr w2. lsh_split_line sys line w = (Ret arr, w2)))"
proof (intro conjI impI)
  show "fst (lsh_read_line sys w) \<noteq> Undefined OutOfBounds"
    by (rule lsh_read_line_in_bounds)
  show "fst (lsh_split_line sys line w) \<noteq> Undefined OutOfBounds"
    by (rule lsh_split_line_in_bounds)
  {
    assume "lsh_read_line sys w = (Ret buffer, w1)"
    from lsh_read_line_result [OF this]
    show "take (length (takeWhile (\<lambda>c. c \<noteq> newline) (w_stdin w)) + 1) buffer =
          map Val (takeWhile (\<lambda>c. c \<noteq> newline) (w_stdin w)) @ [Val NUL]"
      and "length (takeWhile (\<lambda>c. c \<noteq> newline) (w_stdin w)) < length buffer"
      by simp_all
  }
  {
    assume "lsh_split_line sys line w = (Ret arr, w2)"
    from lsh_split_line_result [OF this]
    show "take (length (spec_tokens line) + 1) arr =
          map (\<lambda>t. Val (Some t)) (spec_tokens line) @ [Val None]"
      and "length (spec_tokens line) < length arr"
      by simp_all
  }
  {
    assume "(\<forall>t n. os_alloc sys t n)
        \<and> length (takeWhile (\<lambda>c. c \<noteq> newline) (w_stdin w)) + LSH_RL_BUFSIZE \<le> INT_MAX"
    with lsh_read_line_returns [of sys w]
    show "\<exists>buffer w1. lsh_read_line sys w = (Ret buffer, w1)" by blast
  }
  {
    assume "(\<forall>t n. os_alloc sys t n) \<and> length (spec_tokens line) + LSH_TOK_BUFSIZE \<le> INT_MAX"
    with lsh_split_line_ok [of sys line w]
    show "\<exists>arr w2. lsh_split_line sys line w = (Ret arr, w2)" by blast
  }
qed

theorem stores_within_capacity_witness:
  "(\<exists>buffer w1.
      lsh_read_line os_grant (world0\<lparr>w_stdin := replicate 1024 (CHR ''a'') @ [newline]\<rparr>)
        = (Ret buffer, w1)
      \<and> take 1025 buffer = map Val (replicate 1024 (CHR ''a'')) @ [Val NUL]
      \<and> 1024 < length buffer)
   \<and> (\<exists>arr w2.
      lsh_split_line os_grant (concat (replicate 64 ''a '')) world0 = (Ret arr, w2)
      \<and> take 65 arr = map (\<lambda>t. Val (Some t)) (replicate 64 ''a'') @ [Val None]
      \<and> 64 < length arr)"
proof -
  let ?w = "world0\<lparr>w_stdin := replicate 1024 (CHR ''a'') @ [newline]\<rparr>"
  let ?line = "concat (replicate 64 ''a '')"
  have l: "takeWhile (\<lambda>c. c \<noteq> newline) (w_stdin ?w) = replicate 1024 (CHR ''a'')"
    using takeWhile_replicate_nl [of "CHR ''a''" 1024 "[]"] by (simp add: newline_def)
  have t: "spec_tokens ?line = replicate 64 ''a''"
    by (rule spec_tokens_replicate)
  have al: "\<forall>t n. os_alloc os_grant t n" by (simp add: os_grant_def)
  note on_line = stores_within_capacity [of os_grant ?w ?line]
  have "length (takeWhile (\<lambda>c. c \<noteq> newline) (w_stdin ?w)) + LSH_RL_BUFSIZE \<le> INT_MAX"
    unfolding l by (simp add: LSH_RL_BUFSIZE_def INT_MAX_def)
  with al on_line obtain buffer w1 where r: "lsh_read_line os_grant ?w = (Ret buffer, w1)"
    by blast
  with on_line [of buffer w1]
  have "take (length (takeWhile (\<lambda>c. c \<noteq> newline) (w_stdin ?w)) + 1) buffer =
          map Val (takeWhile (\<lambda>c. c \<noteq> newline) (w_stdin ?w)) @ [Val NUL]
        \<and> length (takeWhile (\<lambda>c. c \<noteq> newline) (w_stdin ?w)) < length buffer"
    by blast
  then have rb: "take 1025 buffer = map Val (replicate 1024 (CHR ''a'')) @ [Val NUL]
      \<and> 1024 < length buffer"
    unfolding l by simp
  note on_tokens = stores_within_capacity [of os_grant world0 ?line]
  have "length (spec_tokens ?line) + LSH_TOK_BUFSIZE \<le> INT_MAX"
    unfolding t by (simp add: LSH_TOK_BUFSIZE_def INT_MAX_def)
  with al on_tokens obtain arr w2 where s: "lsh_split_line os_grant ?line world0 = (Ret arr, w2)"
    by blast
  with on_tokens [of _ _ arr w2]
  have "take (length (spec_tokens ?line) + 1) arr =
          map (\<lambda>t. Val (Some t)) (spec_tokens ?line) @ [Val None]
        \<and> length (spec_tokens ?line) < length arr"
    by blast
  then have sb: "take 65 arr = map (\<lambda>t. Val (Some t)) (replicate 64 ''a'') @ [Val None]
      \<and> 64 < length arr"
    unfolding t by simp
  from r rb s sb show ?thesis by blast
qed

subsection \<open>Where \<open>bufsize\<close> leaves the range of \<open>int\<close>\<close>

text \<open>The bounds in the lemmas on returning are exact. With every allocation granted, a line
  of \<open>INT_MAX - LSH_RL_BUFSIZE + 1\<close> characters or more makes \<open>lsh_read_line\<close> reach the
  addition \<open>bufsize += LSH_RL_BUFSIZE\<close> with a result above \<open>INT_MAX\<close>, and a line of
  \<open>INT_MAX - LSH_TOK_BUFSIZE + 1\<close> tokens or more does the same in \<open>lsh_split_line\<close>. C
  leaves the behaviour undefined there; every store up to that point was inside its
  array.\<close>

lemma int_limit_step:
  assumes "k dvd bufsize" and "k dvd Suc m" and "bufsize \<le> m" and "0 < k"
  shows "bufsize + k \<le> Suc m"
proof -
  from assms(1) obtain a where a: "bufsize = k * a" ..
  from assms(2) obtain b where b: "Suc m = k * b" ..
  from assms(3) a have "k * a < Suc m" by simp
  then have "k * a < k * b" by (simp only: b)
  then have "a < b" by (rule mult_less_cancel1 [THEN iffD1, THEN conjunct2])
  then have "Suc a \<le> b" by simp
  then have "k * Suc a \<le> k * b" by (rule mult_le_mono2)
  with a b show ?thesis by simp
qed

lemma read_loop_overflow:
  assumes "\<forall>t n. os_alloc sys t n"
    and "w_stdin w = line @ rest" and "newline \<notin> set line"
    and "length buffer = bufsize" and "position < bufsize"
    and "bufsize \<le> position + LSH_RL_BUFSIZE" and "LSH_RL_BUFSIZE dvd bufsize"
    and "bufsize \<le> INT_MAX"
    and "INT_MAX < position + length line + LSH_RL_BUFSIZE"
  shows "fst (read_loop sys bufsize position buffer w) = Undefined IntOverflow"
  using assms(2-)
proof (induction line arbitrary: w buffer bufsize position)
  case Nil
  have "LSH_RL_BUFSIZE dvd Suc INT_MAX" by (simp add: LSH_RL_BUFSIZE_def INT_MAX_def)
  from int_limit_step [OF Nil.prems(6) this Nil.prems(7)]
  have "bufsize + LSH_RL_BUFSIZE \<le> Suc INT_MAX" by (simp add: LSH_RL_BUFSIZE_def)
  with Nil.prems(4,8) show ?case by simp
next
  case (Cons c line)
  let ?w1 = "w\<lparr>w_stdin := line @ rest\<rparr>"
  let ?b1 = "buffer[position := Val c]"
  have g: "getchar w = (Some c, ?w1)"
    using Cons.prems(1) by (simp add: getchar_def)
  have nl: "c \<noteq> newline" "newline \<notin> set line"
    using Cons.prems(2) by auto
  have st: "store buffer position c = Inr ?b1"
    using Cons.prems by (simp add: store_ok)
  show ?case
  proof (cases "position + 1 \<ge> bufsize")
    case grow: True
    show ?thesis
    proof (cases "bufsize + LSH_RL_BUFSIZE > INT_MAX")
      case True
      with g nl st grow show ?thesis
        by (subst read_loop.simps) simp
    next
      case no: False
      let ?tmp = "?b1 @ replicate (bufsize + LSH_RL_BUFSIZE - length ?b1) Uninit"
      let ?w2 = "log_event (EvAlloc ((bufsize + LSH_RL_BUFSIZE) * sizeof_char)) ?w1"
      have re: "realloc sys ?b1 (bufsize + LSH_RL_BUFSIZE) sizeof_char ?w1 = (Some ?tmp, ?w2)"
        using assms(1) Cons.prems(3) by (simp add: realloc_ok)
      have eq: "read_loop sys bufsize position buffer w =
            read_loop sys (bufsize + LSH_RL_BUFSIZE) (position + 1) ?tmp ?w2"
        using g nl st grow no re by (subst read_loop.simps) simp
      have "fst (read_loop sys (bufsize + LSH_RL_BUFSIZE) (position + 1) ?tmp ?w2)
              = Undefined IntOverflow"
      proof (rule Cons.IH)
        show "w_stdin ?w2 = line @ rest" by simp
        show "newline \<notin> set line" by (rule nl(2))
        show "length ?tmp = bufsize + LSH_RL_BUFSIZE" using Cons.prems(3) by simp
        show "position + 1 < bufsize + LSH_RL_BUFSIZE"
          using Cons.prems(4) by (simp add: LSH_RL_BUFSIZE_def)
        show "bufsize + LSH_RL_BUFSIZE \<le> position + 1 + LSH_RL_BUFSIZE"
          using grow by simp
        show "LSH_RL_BUFSIZE dvd bufsize + LSH_RL_BUFSIZE"
          using Cons.prems(6) by simp
        show "bufsize + LSH_RL_BUFSIZE \<le> INT_MAX" using no by simp
        show "INT_MAX < position + 1 + length line + LSH_RL_BUFSIZE"
          using Cons.prems(8) by simp
      qed
      with eq show ?thesis by simp
    qed
  next
    case nogrow: False
    have eq: "read_loop sys bufsize position buffer w =
            read_loop sys bufsize (position + 1) ?b1 ?w1"
      using g nl st nogrow by (subst read_loop.simps) simp
    have "fst (read_loop sys bufsize (position + 1) ?b1 ?w1) = Undefined IntOverflow"
    proof (rule Cons.IH)
      show "w_stdin ?w1 = line @ rest" by simp
      show "newline \<notin> set line" by (rule nl(2))
      show "length ?b1 = bufsize" using Cons.prems(3) by simp
      show "position + 1 < bufsize" using nogrow by simp
      show "bufsize \<le> position + 1 + LSH_RL_BUFSIZE" using Cons.prems(5) by simp
      show "LSH_RL_BUFSIZE dvd bufsize" by (rule Cons.prems(6))
      show "bufsize \<le> INT_MAX" by (rule Cons.prems(7))
      show "INT_MAX < position + 1 + length line + LSH_RL_BUFSIZE"
        using Cons.prems(8) by simp
    qed
    with eq show ?thesis by simp
  qed
qed

lemma lsh_read_line_overflow:
  assumes "\<forall>t n. os_alloc sys t n"
    and "INT_MAX < length (takeWhile (\<lambda>c. c \<noteq> newline) (w_stdin w)) + LSH_RL_BUFSIZE"
  shows "fst (lsh_read_line sys w) = Undefined IntOverflow"
proof -
  let ?l = "takeWhile (\<lambda>c. c \<noteq> newline) (w_stdin w)"
  let ?r = "dropWhile (\<lambda>c. c \<noteq> newline) (w_stdin w)"
  let ?w1 = "log_event (EvAlloc (LSH_RL_BUFSIZE * sizeof_char)) w"
  let ?buffer = "replicate LSH_RL_BUFSIZE Uninit :: char cell list"
  have m: "malloc sys LSH_RL_BUFSIZE sizeof_char w = (Some ?buffer, ?w1)"
    using assms(1) by (simp add: malloc_ok)
  have eq: "lsh_read_line sys w = read_loop sys LSH_RL_BUFSIZE 0 ?buffer ?w1"
    using m by (simp add: lsh_read_line_def)
  have "fst (read_loop sys LSH_RL_BUFSIZE 0 ?buffer ?w1) = Undefined IntOverflow"
  proof (rule read_loop_overflow [OF assms(1), where line = ?l and rest = ?r])
    show "w_stdin ?w1 = ?l @ ?r" by simp
    show "newline \<notin> set ?l" by (auto dest: set_takeWhileD)
    show "length ?buffer = LSH_RL_BUFSIZE" by simp
    show "0 < LSH_RL_BUFSIZE" by (simp add: LSH_RL_BUFSIZE_def)
    show "LSH_RL_BUFSIZE \<le> 0 + LSH_RL_BUFSIZE" by simp
    show "LSH_RL_BUFSIZE dvd LSH_RL_BUFSIZE" by simp
    show "LSH_RL_BUFSIZE \<le> INT_MAX" by (simp add: LSH_RL_BUFSIZE_def INT_MAX_def)
    show "INT_MAX < 0 + length ?l + LSH_RL_BUFSIZE" using assms(2) by simp
  qed
  with eq show ?thesis by simp
qed


lemma split_loop_overflow:
  assumes "\<forall>t n. os_alloc sys t n"
    and "rem = (case token of None \<Rightarrow> [] | Some t \<Rightarrow> t # spec_tokens save)"
    and "length tokens = bufsize" and "position < bufsize"
    and "bufsize \<le> position + LSH_TOK_BUFSIZE" and "LSH_TOK_BUFSIZE dvd bufsize"
    and "bufsize \<le> INT_MAX"
    and "INT_MAX < position + length rem + LSH_TOK_BUFSIZE"
  shows "fst (split_loop sys bufsize position tokens token save w) = Undefined IntOverflow"
  using assms(2-)
proof (induction rem arbitrary: token save tokens bufsize position w)
  case Nil
  have "LSH_TOK_BUFSIZE dvd Suc INT_MAX" by (simp add: LSH_TOK_BUFSIZE_def INT_MAX_def)
  from int_limit_step [OF Nil.prems(5) this Nil.prems(6)]
  have "bufsize + LSH_TOK_BUFSIZE \<le> Suc INT_MAX" by (simp add: LSH_TOK_BUFSIZE_def)
  with Nil.prems(3,7) show ?case by simp
next
  case (Cons t ts)
  then have tok: "token = Some t" and ts: "ts = spec_tokens save"
    by (cases token; simp)+
  let ?t1 = "tokens[position := Val (Some t)]"
  have st: "store tokens position (Some t) = Inr ?t1"
    using Cons.prems by (simp add: store_ok)
  obtain token1 save1 where sk: "strtok None LSH_TOK_DELIM save = (token1, save1)"
    by (cases "strtok None LSH_TOK_DELIM save")
  have rem1: "ts = (case token1 of None \<Rightarrow> [] | Some t1 \<Rightarrow> t1 # spec_tokens save1)"
    using strtok_rem [OF sk] ts by simp
  show ?case
  proof (cases "position + 1 \<ge> bufsize")
    case grow: True
    show ?thesis
    proof (cases "bufsize + LSH_TOK_BUFSIZE > INT_MAX")
      case True
      with tok st grow show ?thesis
        by (subst split_loop.simps) simp
    next
      case no: False
      let ?tmp = "?t1 @ replicate (bufsize + LSH_TOK_BUFSIZE - length ?t1) Uninit"
      let ?w1 = "log_event (EvAlloc ((bufsize + LSH_TOK_BUFSIZE) * sizeof_ptr)) w"
      have re: "realloc sys ?t1 (bufsize + LSH_TOK_BUFSIZE) sizeof_ptr w = (Some ?tmp, ?w1)"
        using assms(1) Cons.prems(2) by (simp add: realloc_ok)
      have eq: "split_loop sys bufsize position tokens token save w =
            split_loop sys (bufsize + LSH_TOK_BUFSIZE) (position + 1) ?tmp token1 save1 ?w1"
        using tok st grow no re sk by (subst split_loop.simps) simp
      have "fst (split_loop sys (bufsize + LSH_TOK_BUFSIZE) (position + 1) ?tmp token1 save1 ?w1)
              = Undefined IntOverflow"
      proof (rule Cons.IH [OF rem1])
        show "length ?tmp = bufsize + LSH_TOK_BUFSIZE" using Cons.prems(2) by simp
        show "position + 1 < bufsize + LSH_TOK_BUFSIZE"
          using Cons.prems(3) by (simp add: LSH_TOK_BUFSIZE_def)
        show "bufsize + LSH_TOK_BUFSIZE \<le> position + 1 + LSH_TOK_BUFSIZE"
          using grow by simp
        show "LSH_TOK_BUFSIZE dvd bufsize + LSH_TOK_BUFSIZE"
          using Cons.prems(5) by simp
        show "bufsize + LSH_TOK_BUFSIZE \<le> INT_MAX" using no by simp
        show "INT_MAX < position + 1 + length ts + LSH_TOK_BUFSIZE"
          using Cons.prems(7) by simp
      qed
      with eq show ?thesis by simp
    qed
  next
    case nogrow: False
    have eq: "split_loop sys bufsize position tokens token save w =
            split_loop sys bufsize (position + 1) ?t1 token1 save1 w"
      using tok st nogrow sk by (subst split_loop.simps) simp
    have "fst (split_loop sys bufsize (position + 1) ?t1 token1 save1 w) = Undefined IntOverflow"
    proof (rule Cons.IH [OF rem1])
      show "length ?t1 = bufsize" using Cons.prems(2) by simp
      show "position + 1 < bufsize" using nogrow by simp
      show "bufsize \<le> position + 1 + LSH_TOK_BUFSIZE" using Cons.prems(4) by simp
      show "LSH_TOK_BUFSIZE dvd bufsize" by (rule Cons.prems(5))
      show "bufsize \<le> INT_MAX" by (rule Cons.prems(6))
      show "INT_MAX < position + 1 + length ts + LSH_TOK_BUFSIZE"
        using Cons.prems(7) by simp
    qed
    with eq show ?thesis by simp
  qed
qed

lemma lsh_split_line_overflow:
  assumes "\<forall>t n. os_alloc sys t n"
    and "INT_MAX < length (spec_tokens line) + LSH_TOK_BUFSIZE"
  shows "fst (lsh_split_line sys line w) = Undefined IntOverflow"
proof -
  let ?w1 = "log_event (EvAlloc (LSH_TOK_BUFSIZE * sizeof_ptr)) w"
  let ?tokens = "replicate LSH_TOK_BUFSIZE Uninit :: string option cell list"
  have m: "malloc sys LSH_TOK_BUFSIZE sizeof_ptr w = (Some ?tokens, ?w1)"
    using assms(1) by (simp add: malloc_ok)
  obtain token save where sk: "strtok None LSH_TOK_DELIM line = (token, save)"
    by (cases "strtok None LSH_TOK_DELIM line")
  have rem: "spec_tokens line = (case token of None \<Rightarrow> [] | Some t \<Rightarrow> t # spec_tokens save)"
    by (rule strtok_rem [OF sk])
  have eq: "lsh_split_line sys line w = split_loop sys LSH_TOK_BUFSIZE 0 ?tokens token save ?w1"
    using m sk by (simp add: lsh_split_line_def strtok_first)
  have "fst (split_loop sys LSH_TOK_BUFSIZE 0 ?tokens token save ?w1) = Undefined IntOverflow"
  proof (rule split_loop_overflow [OF assms(1) rem])
    show "length ?tokens = LSH_TOK_BUFSIZE" by simp
    show "0 < LSH_TOK_BUFSIZE" by (simp add: LSH_TOK_BUFSIZE_def)
    show "LSH_TOK_BUFSIZE \<le> 0 + LSH_TOK_BUFSIZE" by simp
    show "LSH_TOK_BUFSIZE dvd LSH_TOK_BUFSIZE" by simp
    show "LSH_TOK_BUFSIZE \<le> INT_MAX" by (simp add: LSH_TOK_BUFSIZE_def INT_MAX_def)
    show "INT_MAX < 0 + length (spec_tokens line) + LSH_TOK_BUFSIZE" using assms(2) by simp
  qed
  with eq show ?thesis by simp
qed

subsection \<open>The status of a dispatch and the end of the loop\<close>

lemma alloc_only_print_out:
  "alloc_only (print_out s w) w' \<Longrightarrow>
     w_stdout w' = w_stdout w @ s \<and> w_stderr w' = w_stderr w \<and> w_cwd w' = w_cwd w
     \<and> w_errno w' = w_errno w \<and> (\<exists>ns. w_trace w' = w_trace w @ map EvAlloc ns)"
  by (simp add: alloc_only_def print_out_def)

lemma read_command_ok:
  assumes "\<forall>t n. os_alloc sys t n"
    and "length (takeWhile (\<lambda>c. c \<noteq> newline) (w_stdin w)) + LSH_RL_BUFSIZE \<le> INT_MAX"
  shows "\<exists>w'. read_command sys w =
           (Ret (spec_tokens (takeWhile (\<lambda>c. c \<noteq> NUL)
              (takeWhile (\<lambda>c. c \<noteq> newline) (w_stdin w)))), w')
         \<and> w_stdin w' = drop 1 (dropWhile (\<lambda>c. c \<noteq> newline) (w_stdin w))
         \<and> alloc_only (print_out ''> '' w) w'"
proof -
  let ?w0 = "print_out ''> '' w"
  let ?l = "takeWhile (\<lambda>c. c \<noteq> newline) (w_stdin w)"
  let ?l2 = "takeWhile (\<lambda>c. c \<noteq> NUL) ?l"
  have in0: "w_stdin ?w0 = w_stdin w" by (simp add: print_out_def)
  from lsh_read_line_returns [OF assms(1), of ?w0] assms(2)
  obtain buffer w1 where r: "lsh_read_line sys ?w0 = (Ret buffer, w1)"
    and f1: "alloc_only ?w0 w1"
    unfolding in0 by blast
  from lsh_read_line_result [OF r]
  have t: "take (length ?l + 1) buffer = map Val ?l @ [Val NUL]"
    and i1: "w_stdin w1 = drop 1 (dropWhile (\<lambda>c. c \<noteq> newline) (w_stdin w))"
    unfolding in0 by simp_all
  have cs: "c_str buffer = Inr ?l2"
    by (rule c_str_take [OF t])
  have "length (spec_tokens ?l2) \<le> length ?l2" by (rule length_spec_tokens)
  also have "\<dots> \<le> length ?l" by (rule length_takeWhile_le)
  finally have "length (spec_tokens ?l2) + LSH_TOK_BUFSIZE \<le> INT_MAX"
    using assms(2) by (simp add: LSH_TOK_BUFSIZE_def LSH_RL_BUFSIZE_def)
  from lsh_split_line_ok [OF assms(1) this, of w1]
  obtain arr w2 where s: "lsh_split_line sys ?l2 w1 = (Ret arr, w2)"
    and tk: "take (length (spec_tokens ?l2) + 1) arr =
               map (\<lambda>t. Val (Some t)) (spec_tokens ?l2) @ [Val None]"
    and i2: "w_stdin w2 = w_stdin w1" and f2: "alloc_only w1 w2"
    by blast
  have av: "argv_of arr = Inr (spec_tokens ?l2)"
    by (rule argv_of_take [OF tk])
  have "read_command sys w = (Ret (spec_tokens ?l2), w2)"
    using r cs s av by (simp add: read_command_def)
  moreover have "alloc_only ?w0 w2" using f1 f2 by (rule alloc_only_trans)
  ultimately show ?thesis using i1 i2 by auto
qed

lemma lsh_help_Ret: "fst (lsh_help sys args w) = Ret 1"
  by (simp add: lsh_help_def Let_def)

lemma lsh_cd_Ret: "args \<noteq> [] \<Longrightarrow> fst (lsh_cd sys args w) = Ret 1"
proof -
  assume "args \<noteq> []"
  then have "arg_at args 1 \<noteq> Inl OutOfBounds"
    by (cases args) (auto simp: arg_at_def)
  then show "fst (lsh_cd sys args w) = Ret 1"
    by (auto simp: lsh_cd_def arg_at_def split: sum.splits option.splits prod.splits if_splits)
qed

lemma lsh_launch_fork_failed:
  "os_fork sys (tick w) = Inl e \<Longrightarrow> \<exists>w'. lsh_launch sys args w = Some (Ret 1, w')"
  by (simp add: lsh_launch_def fork_def)

lemma lsh_launch_returns:
  assumes "os_fork sys (tick w) = Inr pid" and "0 < pid"
    and "os_waitpid sys (tick w + 1) pid WUNTRACED = Inr s0"
    and "os_waitpid sys (tick w + 1 + n) pid WUNTRACED = Inr s"
    and "WIFEXITED s \<or> WIFSIGNALED s"
  shows "\<exists>w'. lsh_launch sys args w = Some (Ret 1, w') \<and> w_stdin w' = w_stdin w
           \<and> w_stdout w' = w_stdout w \<and> w_stderr w' = w_stderr w \<and> w_cwd w' = w_cwd w"
proof -
  let ?w0 = "log_event EvFork w"
  let ?T = "\<lambda>k. \<exists>s'. os_waitpid sys (tick ?w0 + k) pid WUNTRACED = Inr s'
               \<and> (WIFEXITED s' \<or> WIFSIGNALED s')"
  have t0: "tick ?w0 = tick w + 1" by simp
  have ex: "?T n" using assms(4,5) unfolding t0 by blast
  define m where "m = (LEAST k. ?T k)"
  have Tm: "?T m" unfolding m_def using ex by (rule LeastI)
  then obtain t where t: "os_waitpid sys (tick ?w0 + m) pid WUNTRACED = Inr t"
    "WIFEXITED t \<or> WIFSIGNALED t" by blast
  have least: "\<forall>k<m. \<forall>s'. os_waitpid sys (tick ?w0 + k) pid WUNTRACED = Inr s' \<longrightarrow>
               \<not> WIFEXITED s' \<and> \<not> WIFSIGNALED s'"
  proof (intro allI impI)
    fix k s' assume "k < m" "os_waitpid sys (tick ?w0 + k) pid WUNTRACED = Inr s'"
    with not_less_Least [of k ?T] show "\<not> WIFEXITED s' \<and> \<not> WIFSIGNALED s'"
      unfolding m_def by blast
  qed
  have first: "WIFEXITED (os_unassigned sys (tick w)) \<or> WIFSIGNALED (os_unassigned sys (tick w)) \<longrightarrow>
        (\<exists>s0. os_waitpid sys (tick ?w0) pid WUNTRACED = Inr s0)"
    using assms(3) unfolding t0 by simp
  from wait_loop_returns [OF t(1) t(2) least first]
  obtain w' where "wait_loop sys pid (os_unassigned sys (tick w)) ?w0 = Some (t, w')"
    "w_stdin w' = w_stdin ?w0" "w_stdout w' = w_stdout ?w0"
    "w_stderr w' = w_stderr ?w0" "w_cwd w' = w_cwd ?w0"
    by auto
  then show ?thesis
    unfolding lsh_launch_parent [OF assms(1,2)] by (simp add: log_event_def)
qed

lemma lsh_execute_Ret:
  "lsh_execute sys args w = Some (Ret st, w') \<Longrightarrow>
     st = (if \<exists>rest. args = ''exit'' # rest then 0 else 1)"
proof (cases args)
  case Nil
  assume "lsh_execute sys args w = Some (Ret st, w')"
  with Nil show ?thesis by (simp add: lsh_execute_cases)
next
  case (Cons a0 rest)
  assume r: "lsh_execute sys args w = Some (Ret st, w')"
  consider "a0 = ''cd''" | "a0 = ''help''" | "a0 = ''exit''"
    | "a0 \<noteq> ''cd''" "a0 \<noteq> ''help''" "a0 \<noteq> ''exit''" by blast
  then show ?thesis
  proof cases
    case 1
    with r Cons have "lsh_cd sys args w = (Ret st, w')" by (simp add: lsh_execute_cases)
    with lsh_cd_Ret [of args sys w] Cons 1 show ?thesis by simp
  next
    case 2
    with r Cons have "lsh_help sys args w = (Ret st, w')" by (simp add: lsh_execute_cases)
    with lsh_help_Ret [of sys args w] Cons 2 show ?thesis by simp
  next
    case 3
    with r Cons show ?thesis by (simp add: lsh_execute_cases lsh_exit_def)
  next
    case 4
    with r Cons have "lsh_launch sys args w = Some (Ret st, w')" by (simp add: lsh_execute_cases)
    with lsh_launch_Ret Cons 4 show ?thesis by simp
  qed
qed

lemma lsh_execute_exit: "lsh_execute sys (''exit'' # rest) w = Some (Ret 0, w)"
  by (simp add: lsh_execute_cases lsh_exit_def)

lemma lsh_execute_builtin_returns:
  assumes "args = [] \<or> (\<exists>rest. args = ''cd'' # rest) \<or> (\<exists>rest. args = ''help'' # rest)"
  shows "\<exists>w'. lsh_execute sys args w = Some (Ret 1, w')"
proof -
  consider "args = []" | rest where "args = ''cd'' # rest" | rest where "args = ''help'' # rest"
    using assms by blast
  then show ?thesis
  proof cases
    case 1
    then show ?thesis by (simp add: lsh_execute_cases)
  next
    case 2
    then have "lsh_execute sys args w = Some (lsh_cd sys args w)"
      by (simp add: lsh_execute_cases)
    moreover have "fst (lsh_cd sys args w) = Ret 1" using 2 by (simp add: lsh_cd_Ret)
    ultimately show ?thesis by (cases "lsh_cd sys args w") auto
  next
    case 3
    then have "lsh_execute sys args w = Some (lsh_help sys args w)"
      by (simp add: lsh_execute_cases)
    moreover have "fst (lsh_help sys args w) = Ret 1" by (rule lsh_help_Ret)
    ultimately show ?thesis by (cases "lsh_help sys args w") auto
  qed
qed

lemma lsh_execute_external:
  "args \<noteq> [] \<Longrightarrow> hd args \<notin> set builtin_str \<Longrightarrow> lsh_execute sys args w = lsh_launch sys args w"
  by (cases args) (auto simp: lsh_execute_cases builtin_str_def)

lemma lsh_loop_exit_last:
  "lsh_loop sys w0 = Some y \<Longrightarrow>
     fst y = Ret () \<longrightarrow> (\<exists>wk rest. read_command sys wk = (Ret (''exit'' # rest), snd y))"
proof (induction rule: lsh_loop.raw_induct [rotated 1, consumes 1])
  case (1 loop sys w y)
  show ?case
  proof
    assume ret: "fst y = Ret ()"
    obtain out w1 where rc: "read_command sys w = (out, w1)" by (cases "read_command sys w")
    show "\<exists>wk rest. read_command sys wk = (Ret (''exit'' # rest), snd y)"
    proof (cases out)
      case (Ret args)
      with rc have lb: "loop_body sys w = lsh_execute sys args w1" by (simp add: loop_body_def)
      show ?thesis
      proof (cases "lsh_execute sys args w1")
        case None
        with lb 1(2) show ?thesis by simp
      next
        case (Some z)
        obtain o2 w2 where z: "z = (o2, w2)" by (cases z)
        show ?thesis
        proof (cases o2)
          case st: (Ret status)
          show ?thesis
          proof (cases "status = 0")
            case True
            with lb Some z st 1(2) have y: "y = (Ret (), w2)" by simp
            from Some z st True have e: "lsh_execute sys args w1 = Some (Ret 0, w2)" by simp
            from lsh_execute_Ret [OF e] obtain rest where a: "args = ''exit'' # rest"
              by (auto split: if_splits)
            with e lsh_execute_exit [of sys rest w1] have "w2 = w1" by simp
            with rc Ret a y show ?thesis by auto
          next
            case False
            with lb Some z st 1(2) have "loop sys w2 = Some y" by simp
            from 1(1) [OF this] ret show ?thesis by simp
          qed
        next
          case (ProcExit c)
          with lb Some z 1(2) ret show ?thesis by auto
        next
          case (ImageReplaced f a)
          with lb Some z 1(2) ret show ?thesis by auto
        next
          case (Undefined f)
          with lb Some z 1(2) ret show ?thesis by auto
        qed
      qed
    next
      case (ProcExit c)
      with rc 1(2) ret show ?thesis by (auto simp: loop_body_def)
    next
      case (ImageReplaced f a)
      with rc 1(2) ret show ?thesis by (auto simp: loop_body_def)
    next
      case (Undefined f)
      with rc 1(2) ret show ?thesis by (auto simp: loop_body_def)
    qed
  qed
qed

lemma lsh_loop_step:
  assumes "read_command sys w0 = (Ret args, w)" and "lsh_execute sys args w = Some (Ret st, w')"
  shows "lsh_loop sys w0 =
     (if \<exists>rest. args = ''exit'' # rest then Some (Ret (), w') else lsh_loop sys w')"
proof -
  have "loop_body sys w0 = Some (Ret st, w')"
    using assms by (simp add: loop_body_def)
  moreover have "st = (if \<exists>rest. args = ''exit'' # rest then 0 else 1)"
    by (rule lsh_execute_Ret [OF assms(2)])
  ultimately show ?thesis
    by (subst lsh_loop.simps) auto
qed


lemma takeWhile_line: "newline \<notin> set l \<Longrightarrow> takeWhile (\<lambda>c. c \<noteq> newline) (l @ newline # r) = l"
  by (induction l) auto

lemma dropWhile_line: "newline \<notin> set l \<Longrightarrow> dropWhile (\<lambda>c. c \<noteq> newline) (l @ newline # r) = newline # r"
  by (induction l) auto

text \<open>Claim C6. On the vector that begins with the null sentinel, \<open>lsh_execute\<close> returns 1
  and the process state is the one it was given: no output, no request to the system, so no
  handler ran and no process was launched. That vector is what \<open>lsh_split_line\<close> returns for
  a line of delimiters only (the empty line included): entry 0 of the array is the null
  pointer. And a turn of the loop that read such a vector ends with status 1 in the state
  in which the vector was read.\<close>

theorem lsh_execute_empty_vector:
  "lsh_execute sys [] w = Some (Ret 1, w)
   \<and> (list_all spec_delim line \<and> lsh_split_line sys line w0 = (Ret arr, w) \<longrightarrow>
        arr ! 0 = Val None \<and> argv_of arr = Inr [])
   \<and> (read_command sys w0 = (Ret [], w) \<longrightarrow> loop_body sys w0 = Some (Ret 1, w))"
proof (intro conjI impI)
  show e: "lsh_execute sys [] w = Some (Ret 1, w)"
    by (simp add: lsh_execute_cases)
  {
    assume a: "list_all spec_delim line \<and> lsh_split_line sys line w0 = (Ret arr, w)"
    then have st: "spec_tokens line = []" by (simp add: spec_tokens_all_delim)
    from a lsh_split_line_result [of sys line w0 arr w]
    have t: "take 1 arr = [Val None]" and l: "0 < length arr"
      unfolding st by simp_all
    then show "arr ! 0 = Val None"
      by (cases arr) simp_all
    from t show "argv_of arr = Inr []"
      using argv_of_take [of "[]" arr] by simp
  }
  {
    assume "read_command sys w0 = (Ret [], w)"
    with e show "loop_body sys w0 = Some (Ret 1, w)"
      by (simp add: loop_body_def)
  }
qed

theorem lsh_execute_empty_vector_witness:
  "list_all spec_delim ([CHR 0x09] @ ''  '')
   \<and> (\<exists>arr w. lsh_split_line os_grant ([CHR 0x09] @ ''  '') world0 = (Ret arr, w)
        \<and> arr ! 0 = Val None \<and> argv_of arr = Inr []
        \<and> lsh_execute os_grant [] w = Some (Ret 1, w))
   \<and> (\<exists>w. read_command os_grant (world0\<lparr>w_stdin := [CHR 0x09] @ ''  '' @ [newline]\<rparr>) = (Ret [], w)
        \<and> loop_body os_grant (world0\<lparr>w_stdin := [CHR 0x09] @ ''  '' @ [newline]\<rparr>)
            = Some (Ret 1, w))"
proof -
  let ?line = "[CHR 0x09] @ ''  ''"
  have d: "list_all spec_delim ?line" by (simp add: spec_delim_def)
  have "length (spec_tokens ?line) + LSH_TOK_BUFSIZE \<le> INT_MAX"
    using length_spec_tokens [of ?line] by (simp add: LSH_TOK_BUFSIZE_def INT_MAX_def)
  with lsh_split_line_ok [of os_grant ?line world0]
  obtain arr w where r: "lsh_split_line os_grant ?line world0 = (Ret arr, w)"
    by (auto simp: os_grant_def)
  from lsh_execute_empty_vector [of os_grant w ?line world0 arr] d r
  have "arr ! 0 = Val None \<and> argv_of arr = Inr [] \<and> lsh_execute os_grant [] w = Some (Ret 1, w)"
    by blast
  with d r have first: "\<exists>arr w. lsh_split_line os_grant ?line world0 = (Ret arr, w)
        \<and> arr ! 0 = Val None \<and> argv_of arr = Inr []
        \<and> lsh_execute os_grant [] w = Some (Ret 1, w)"
    by blast
  let ?w0 = "world0\<lparr>w_stdin := [CHR 0x09] @ ''  '' @ [newline]\<rparr>"
  have nl: "newline \<notin> set ([CHR 0x09] @ ''  '')" by (simp add: newline_def)
  have l: "takeWhile (\<lambda>c. c \<noteq> newline) (w_stdin ?w0) = [CHR 0x09] @ ''  ''"
    using takeWhile_line [OF nl, of "[]"] by simp
  have "length (takeWhile (\<lambda>c. c \<noteq> newline) (w_stdin ?w0)) + LSH_RL_BUFSIZE \<le> INT_MAX"
    unfolding l by (simp add: LSH_RL_BUFSIZE_def INT_MAX_def)
  from read_command_ok [OF os_grant_alloc this]
  obtain w1 where rc: "read_command os_grant ?w0 = (Ret [], w1)"
    unfolding l by (auto simp: NUL_def spec_tokens_def spec_delim_def)
  with lsh_execute_empty_vector [of os_grant w1 _ ?w0]
  have "loop_body os_grant ?w0 = Some (Ret 1, w1)" by blast
  with rc have second: "\<exists>w. read_command os_grant ?w0 = (Ret [], w)
        \<and> loop_body os_grant ?w0 = Some (Ret 1, w)"
    by blast
  from d first second show ?thesis by blast
qed

text \<open>Claim C1. For every argument vector, those the Tokenizer produces included:
  \<open>lsh_execute\<close> returns status 0 if and only if the first element of the vector is \<open>exit\<close>,
  and every status it returns for another vector is 1. It does return, with 1, on the
  empty vector, on \<open>cd\<close> and on \<open>help\<close>; on an external command when \<open>fork\<close> fails; and on an
  external command in the parent, as soon as the wait on the child, whose first answer is a
  status, gets an answer that the child exited or was killed. (In the forked child
  \<open>lsh_execute\<close> does not return, and while the child only stops it does not return
  either.) Hence a turn of the loop that dispatched a vector and got a status ends the loop
  exactly when the vector begins with \<open>exit\<close>, otherwise the loop goes on from the state the
  dispatch left; and whenever \<open>lsh_loop\<close> returns, its last turn read a vector that begins
  with \<open>exit\<close>.\<close>

theorem lsh_execute_status:
  "((\<exists>w'. lsh_execute sys args w = Some (Ret 0, w')) \<longleftrightarrow> (\<exists>rest. args = ''exit'' # rest))
   \<and> (lsh_execute sys args w = Some (Ret st, w1) \<longrightarrow>
        st = (if \<exists>rest. args = ''exit'' # rest then 0 else 1))
   \<and> (args = [] \<or> (\<exists>rest. args = ''cd'' # rest) \<or> (\<exists>rest. args = ''help'' # rest) \<longrightarrow>
        (\<exists>w'. lsh_execute sys args w = Some (Ret 1, w')))
   \<and> (args \<noteq> [] \<and> hd args \<notin> set builtin_str \<and> os_fork sys (tick w) = Inl e \<longrightarrow>
        (\<exists>w'. lsh_execute sys args w = Some (Ret 1, w')))
   \<and> (args \<noteq> [] \<and> hd args \<notin> set builtin_str \<and> os_fork sys (tick w) = Inr pid \<and> 0 < pid
        \<and> os_waitpid sys (tick w + 1) pid WUNTRACED = Inr s0
        \<and> os_waitpid sys (tick w + 1 + n) pid WUNTRACED = Inr s
        \<and> (WIFEXITED s \<or> WIFSIGNALED s) \<longrightarrow>
        (\<exists>w'. lsh_execute sys args w = Some (Ret 1, w')))
   \<and> (read_command sys w0 = (Ret args, w) \<and> lsh_execute sys args w = Some (Ret st, w1) \<longrightarrow>
        lsh_loop sys w0 =
          (if \<exists>rest. args = ''exit'' # rest then Some (Ret (), w1) else lsh_loop sys w1))
   \<and> (lsh_loop sys w0 = Some (Ret (), w2) \<longrightarrow>
        (\<exists>wk rest. read_command sys wk = (Ret (''exit'' # rest), w2)))"
proof (intro conjI impI)
  show "(\<exists>w'. lsh_execute sys args w = Some (Ret 0, w')) \<longleftrightarrow> (\<exists>rest. args = ''exit'' # rest)"
  proof
    assume "\<exists>w'. lsh_execute sys args w = Some (Ret 0, w')"
    then obtain w' where "lsh_execute sys args w = Some (Ret 0, w')" ..
    from lsh_execute_Ret [OF this] show "\<exists>rest. args = ''exit'' # rest"
      by (auto split: if_splits)
  next
    assume "\<exists>rest. args = ''exit'' # rest"
    then show "\<exists>w'. lsh_execute sys args w = Some (Ret 0, w')"
      using lsh_execute_exit by blast
  qed
  {
    assume "lsh_execute sys args w = Some (Ret st, w1)"
    then show "st = (if \<exists>rest. args = ''exit'' # rest then 0 else 1)"
      by (rule lsh_execute_Ret)
  }
  {
    assume "args = [] \<or> (\<exists>rest. args = ''cd'' # rest) \<or> (\<exists>rest. args = ''help'' # rest)"
    then show "\<exists>w'. lsh_execute sys args w = Some (Ret 1, w')"
      by (rule lsh_execute_builtin_returns)
  }
  {
    assume a: "args \<noteq> [] \<and> hd args \<notin> set builtin_str \<and> os_fork sys (tick w) = Inl e"
    then have "lsh_execute sys args w = lsh_launch sys args w"
      by (simp add: lsh_execute_external)
    with a lsh_launch_fork_failed [of sys w e args]
    show "\<exists>w'. lsh_execute sys args w = Some (Ret 1, w')" by simp
  }
  {
    assume a: "args \<noteq> [] \<and> hd args \<notin> set builtin_str \<and> os_fork sys (tick w) = Inr pid \<and> 0 < pid
        \<and> os_waitpid sys (tick w + 1) pid WUNTRACED = Inr s0
        \<and> os_waitpid sys (tick w + 1 + n) pid WUNTRACED = Inr s
        \<and> (WIFEXITED s \<or> WIFSIGNALED s)"
    then have "lsh_execute sys args w = lsh_launch sys args w"
      by (simp add: lsh_execute_external)
    with a lsh_launch_returns [of sys w pid s0 n s args]
    show "\<exists>w'. lsh_execute sys args w = Some (Ret 1, w')" by auto
  }
  {
    assume "read_command sys w0 = (Ret args, w) \<and> lsh_execute sys args w = Some (Ret st, w1)"
    then show "lsh_loop sys w0 =
          (if \<exists>rest. args = ''exit'' # rest then Some (Ret (), w1) else lsh_loop sys w1)"
      using lsh_loop_step by blast
  }
  {
    assume "lsh_loop sys w0 = Some (Ret (), w2)"
    from lsh_loop_exit_last [OF this]
    show "\<exists>wk rest. read_command sys wk = (Ret (''exit'' # rest), w2)" by simp
  }
qed

theorem lsh_execute_status_witness:
  "(\<exists>w w1. read_command os_grant (world0\<lparr>w_stdin := ''exit'' @ [newline]\<rparr>) = (Ret [''exit''], w)
      \<and> lsh_execute os_grant [''exit''] w = Some (Ret 0, w1)
      \<and> lsh_loop os_grant (world0\<lparr>w_stdin := ''exit'' @ [newline]\<rparr>) = Some (Ret (), w1))
   \<and> (\<exists>w'. lsh_execute os_grant [''ls'', ''-l''] world0 = Some (Ret 1, w'))
   \<and> (\<exists>w'. lsh_execute os_refuse [''ls'', ''-l''] world0 = Some (Ret 1, w'))
   \<and> (\<exists>w'. lsh_execute os_refuse [''cd''] world0 = Some (Ret 1, w'))
   \<and> (\<exists>w2 wk rest. lsh_loop os_grant (world0\<lparr>w_stdin := ''exit'' @ [newline]\<rparr>) = Some (Ret (), w2)
        \<and> read_command os_grant wk = (Ret (''exit'' # rest), w2))"
proof -
  let ?w0 = "world0\<lparr>w_stdin := ''exit'' @ [newline]\<rparr>"
  have nl: "newline \<notin> set ''exit''" by (simp add: newline_def)
  have l: "takeWhile (\<lambda>c. c \<noteq> newline) (w_stdin ?w0) = ''exit''"
    using takeWhile_line [OF nl, of "[]"] by simp
  have "length (takeWhile (\<lambda>c. c \<noteq> newline) (w_stdin ?w0)) + LSH_RL_BUFSIZE \<le> INT_MAX"
    unfolding l by (simp add: LSH_RL_BUFSIZE_def INT_MAX_def)
  from read_command_ok [OF os_grant_alloc this]
  obtain w where rc: "read_command os_grant ?w0 = (Ret [''exit''], w)"
    unfolding l by (auto simp: NUL_def spec_tokens_def spec_delim_def)
  have ex: "lsh_execute os_grant [''exit''] w = Some (Ret 0, w)"
    using lsh_execute_status [of os_grant "[''exit'']" w] by (simp add: lsh_execute_exit)
  from lsh_execute_status [of os_grant "[''exit'']" w 0 w _ _ _ _ _ ?w0] rc ex
  have lp: "lsh_loop os_grant ?w0 = Some (Ret (), w)" by simp
  have g: "[''ls'', ''-l''] \<noteq> [] \<and> hd [''ls'', ''-l''] \<notin> set builtin_str
      \<and> os_fork os_grant (tick world0) = Inr 7 \<and> (0::int) < 7
      \<and> os_waitpid os_grant (tick world0 + 1) 7 WUNTRACED = Inr (WStopped 19)
      \<and> os_waitpid os_grant (tick world0 + 1 + 1) 7 WUNTRACED = Inr (WExited 42)
      \<and> (WIFEXITED (WExited 42) \<or> WIFSIGNALED (WExited 42))"
    by (simp add: builtin_str_def os_grant_def world0_def tick_def)
  with lsh_execute_status [of os_grant "[''ls'', ''-l'']" world0 _ _ _ 7 "WStopped 19" 1 "WExited 42"]
  have ls: "\<exists>w'. lsh_execute os_grant [''ls'', ''-l''] world0 = Some (Ret 1, w')" by blast
  have "[''ls'', ''-l''] \<noteq> [] \<and> hd [''ls'', ''-l''] \<notin> set builtin_str
      \<and> os_fork os_refuse (tick world0) = Inl 11"
    by (simp add: builtin_str_def os_refuse_def)
  with lsh_execute_status [of os_refuse "[''ls'', ''-l'']" world0 _ _ 11]
  have ff: "\<exists>w'. lsh_execute os_refuse [''ls'', ''-l''] world0 = Some (Ret 1, w')" by blast
  from lsh_execute_status [of os_refuse "[''cd'']" world0]
  have cd: "\<exists>w'. lsh_execute os_refuse [''cd''] world0 = Some (Ret 1, w')" by blast
  from lsh_execute_status [of os_grant _ _ _ _ _ _ _ _ _ ?w0 w] lp
  have "\<exists>wk rest. read_command os_grant wk = (Ret (''exit'' # rest), w)" by blast
  with lp have last: "\<exists>w2 wk rest. lsh_loop os_grant ?w0 = Some (Ret (), w2)
        \<and> read_command os_grant wk = (Ret (''exit'' # rest), w2)"
    by blast
  from rc ex lp ls ff cd last show ?thesis by blast
qed

subsection \<open>The exit code of the process\<close>

lemma exit_shape_simps [simp]:
  "exit_shape sys (Ret x)"
  "exit_shape sys (Undefined f)"
  "exit_shape sys (ProcExit c) \<longleftrightarrow>
     c = EXIT_FAILURE \<and> ((\<exists>t n. \<not> os_alloc sys t n) \<or> (\<exists>t. os_fork sys t = Inr 0))"
  "exit_shape sys (ImageReplaced g a) \<longleftrightarrow> (\<exists>t. os_fork sys t = Inr 0)"
  by (simp_all add: exit_shape_def)

lemma realloc_None: "realloc sys p count width w = (None, w') \<Longrightarrow> \<exists>t n. \<not> os_alloc sys t n"
  by (auto simp: realloc_def split: if_splits)

lemma malloc_None: "malloc sys count width w = (None, w') \<Longrightarrow> \<exists>t n. \<not> os_alloc sys t n"
  by (auto simp: malloc_def split: if_splits)

lemma read_loop_exit_shape:
  "w_stdin w = cs \<Longrightarrow> exit_shape sys (fst (read_loop sys bufsize position buffer w))"
proof (induction cs arbitrary: w buffer bufsize position)
  case Nil
  then show ?case
    by (subst read_loop.simps) (simp add: getchar_def split: sum.splits)
next
  case (Cons c cs)
  let ?w1 = "w\<lparr>w_stdin := cs\<rparr>"
  have g: "getchar w = (Some c, ?w1)"
    using Cons.prems(1) by (simp add: getchar_def)
  show ?case
  proof (cases "c = newline")
    case True
    with g show ?thesis
      by (subst read_loop.simps) (simp split: sum.splits)
  next
    case False
    show ?thesis
    proof (cases "store buffer position c")
      case (Inl f)
      with g False show ?thesis
        by (subst read_loop.simps) simp
    next
      case (Inr b1)
      show ?thesis
      proof (cases "position + 1 \<ge> bufsize")
        case grow: True
        show ?thesis
        proof (cases "bufsize + LSH_RL_BUFSIZE > INT_MAX")
          case True
          with g False Inr grow show ?thesis
            by (subst read_loop.simps) simp
        next
          case no: False
          obtain r w2 where re: "realloc sys b1 (bufsize + LSH_RL_BUFSIZE) sizeof_char ?w1 = (r, w2)"
            by (cases "realloc sys b1 (bufsize + LSH_RL_BUFSIZE) sizeof_char ?w1")
          from realloc_cases [OF re] have w2: "w_stdin w2 = cs" by simp
          show ?thesis
          proof (cases r)
            case None
            with re have "\<exists>t n. \<not> os_alloc sys t n" by (auto dest: realloc_None)
            with g False Inr grow no re None show ?thesis
              by (subst read_loop.simps) simp
          next
            case (Some tmp)
            from Cons.IH [OF w2]
            have "exit_shape sys (fst (read_loop sys (bufsize + LSH_RL_BUFSIZE) (position + 1) tmp w2))" .
            with g False Inr grow no re Some show ?thesis
              by (subst read_loop.simps) simp
          qed
        qed
      next
        case nogrow: False
        have "w_stdin ?w1 = cs" by simp
        from Cons.IH [OF this]
        have "exit_shape sys (fst (read_loop sys bufsize (position + 1) b1 ?w1))" .
        with g False Inr nogrow show ?thesis
          by (subst read_loop.simps) simp
      qed
    qed
  qed
qed

lemma split_loop_exit_shape:
  "exit_shape sys (fst (split_loop sys bufsize position tokens token save w))"
proof (induction sys bufsize position tokens token save w rule: split_loop.induct)
  case (1 sys bufsize position tokens token save w)
  show ?case
  proof (cases token)
    case None
    then show ?thesis
      by (subst split_loop.simps) (simp split: sum.splits)
  next
    case (Some tok)
    obtain token1 save1 where tk: "strtok None LSH_TOK_DELIM save = (token1, save1)"
      by (cases "strtok None LSH_TOK_DELIM save")
    show ?thesis
    proof (cases "store tokens position (Some tok)")
      case (Inl f)
      with Some show ?thesis
        by (subst split_loop.simps) simp
    next
      case (Inr t1)
      show ?thesis
      proof (cases "position + 1 \<ge> bufsize")
        case grow: True
        show ?thesis
        proof (cases "bufsize + LSH_TOK_BUFSIZE > INT_MAX")
          case True
          with Some Inr grow show ?thesis
            by (subst split_loop.simps) simp
        next
          case no: False
          obtain r w1 where re: "realloc sys t1 (bufsize + LSH_TOK_BUFSIZE) sizeof_ptr w = (r, w1)"
            by (cases "realloc sys t1 (bufsize + LSH_TOK_BUFSIZE) sizeof_ptr w")
          show ?thesis
          proof (cases r)
            case None
            with re have "\<exists>t n. \<not> os_alloc sys t n" by (auto dest: realloc_None)
            with Some Inr grow no re None show ?thesis
              by (subst split_loop.simps) simp
          next
            case tmp: (Some tmp)
            have "exit_shape sys (fst (split_loop sys (bufsize + LSH_TOK_BUFSIZE) (position + 1)
                    tmp token1 save1 w1))"
              using 1(1) [OF Some Inr grow no re [symmetric] tmp tk [symmetric]] .
            with Some Inr grow no re tmp tk show ?thesis
              by (subst split_loop.simps) simp
          qed
        qed
      next
        case nogrow: False
        from 1(2) [OF Some Inr nogrow tk [symmetric]]
        have "exit_shape sys (fst (split_loop sys bufsize (position + 1) t1 token1 save1 w))" .
        with Some Inr nogrow tk show ?thesis
          by (subst split_loop.simps) simp
      qed
    qed
  qed
qed

lemma lsh_read_line_exit_shape: "exit_shape sys (fst (lsh_read_line sys w))"
proof -
  obtain r w1 where m: "malloc sys LSH_RL_BUFSIZE sizeof_char w = (r :: char cell list option, w1)"
    by (cases "malloc sys LSH_RL_BUFSIZE sizeof_char w :: char cell list option \<times> world")
  show ?thesis
  proof (cases r)
    case None
    with m have "\<exists>t n. \<not> os_alloc sys t n" by (auto dest: malloc_None)
    with m None show ?thesis by (simp add: lsh_read_line_def)
  next
    case (Some buffer)
    with m read_loop_exit_shape [OF refl, of sys LSH_RL_BUFSIZE 0 buffer w1]
    show ?thesis by (simp add: lsh_read_line_def)
  qed
qed

lemma lsh_split_line_exit_shape: "exit_shape sys (fst (lsh_split_line sys line w))"
proof -
  obtain r w1 where m: "malloc sys LSH_TOK_BUFSIZE sizeof_ptr w = (r :: string option cell list option, w1)"
    by (cases "malloc sys LSH_TOK_BUFSIZE sizeof_ptr w :: string option cell list option \<times> world")
  obtain token save where tk: "strtok (Some line) LSH_TOK_DELIM [] = (token, save)"
    by (cases "strtok (Some line) LSH_TOK_DELIM []")
  show ?thesis
  proof (cases r)
    case None
    with m have "\<exists>t n. \<not> os_alloc sys t n" by (auto dest: malloc_None)
    with m None show ?thesis by (simp add: lsh_split_line_def)
  next
    case (Some tokens)
    with m tk split_loop_exit_shape [of sys LSH_TOK_BUFSIZE 0 tokens token save w1]
    show ?thesis by (simp add: lsh_split_line_def)
  qed
qed

lemma read_command_exit_shape: "exit_shape sys (fst (read_command sys w))"
proof -
  let ?w0 = "print_out ''> '' w"
  obtain o1 w1 where r: "lsh_read_line sys ?w0 = (o1, w1)" by (cases "lsh_read_line sys ?w0")
  with lsh_read_line_exit_shape [of sys ?w0] have s1: "exit_shape sys o1" by simp
  show ?thesis
  proof (cases o1)
    case (Ret buffer)
    show ?thesis
    proof (cases "c_str buffer")
      case (Inl f)
      with r Ret show ?thesis by (simp add: read_command_def)
    next
      case (Inr line)
      obtain o2 w2 where s: "lsh_split_line sys line w1 = (o2, w2)"
        by (cases "lsh_split_line sys line w1")
      with lsh_split_line_exit_shape [of sys line w1] have s2: "exit_shape sys o2" by simp
      with r Ret Inr s show ?thesis
        by (cases o2) (simp_all add: read_command_def split: sum.splits)
    qed
  next
    case (ProcExit c)
    with r s1 show ?thesis by (simp add: read_command_def)
  next
    case (ImageReplaced f a)
    with r s1 show ?thesis by (simp add: read_command_def)
  next
    case (Undefined f)
    with r show ?thesis by (simp add: read_command_def)
  qed
qed

lemma lsh_launch_exit_shape:
  "lsh_launch sys args w = Some (out, w') \<Longrightarrow> exit_shape sys out"
  by (auto simp: lsh_launch_def fork_def split: prod.splits if_splits sum.splits option.splits)

lemma lsh_execute_exit_shape:
  "lsh_execute sys args w = Some (out, w') \<Longrightarrow> exit_shape sys out"
proof (cases args)
  case Nil
  assume "lsh_execute sys args w = Some (out, w')"
  with Nil show ?thesis by (auto simp: lsh_execute_cases)
next
  case (Cons a0 rest)
  assume r: "lsh_execute sys args w = Some (out, w')"
  consider "a0 = ''cd''" | "a0 = ''help''" | "a0 = ''exit''"
    | "a0 \<noteq> ''cd''" "a0 \<noteq> ''help''" "a0 \<noteq> ''exit''" by blast
  then show ?thesis
  proof cases
    case 1
    with r Cons have "lsh_cd sys args w = (out, w')" by (simp add: lsh_execute_cases)
    with lsh_cd_Ret [of args sys w] Cons show ?thesis by simp
  next
    case 2
    with r Cons have "lsh_help sys args w = (out, w')" by (simp add: lsh_execute_cases)
    with lsh_help_Ret [of sys args w] show ?thesis by simp
  next
    case 3
    with r Cons show ?thesis by (auto simp: lsh_execute_cases lsh_exit_def)
  next
    case 4
    with r Cons have "lsh_launch sys args w = Some (out, w')" by (simp add: lsh_execute_cases)
    then show ?thesis by (rule lsh_launch_exit_shape)
  qed
qed

lemma loop_body_exit_shape:
  "loop_body sys w = Some (out, w') \<Longrightarrow> exit_shape sys out"
proof -
  assume a: "loop_body sys w = Some (out, w')"
  obtain o1 w1 where r: "read_command sys w = (o1, w1)" by (cases "read_command sys w")
  with read_command_exit_shape [of sys w] have s1: "exit_shape sys o1" by simp
  show ?thesis
  proof (cases o1)
    case (Ret args)
    with a r have "lsh_execute sys args w1 = Some (out, w')" by (simp add: loop_body_def)
    then show ?thesis by (rule lsh_execute_exit_shape)
  next
    case (ProcExit c)
    with a r have "out = ProcExit c" by (simp add: loop_body_def)
    with s1 ProcExit show ?thesis by simp
  next
    case (ImageReplaced f a)
    with \<open>loop_body sys w = Some (out, w')\<close> r have "out = ImageReplaced f a"
      by (simp add: loop_body_def)
    with s1 ImageReplaced show ?thesis by simp
  next
    case (Undefined f)
    with a r have "out = Undefined f" by (simp add: loop_body_def)
    then show ?thesis by simp
  qed
qed

lemma lsh_loop_exit_shape:
  "lsh_loop sys w = Some y \<Longrightarrow> exit_shape sys (fst y)"
proof (induction rule: lsh_loop.raw_induct [rotated 1, consumes 1])
  case (1 loop sys w y)
  show ?case
  proof (cases "loop_body sys w")
    case None
    with 1(2) show ?thesis by simp
  next
    case (Some z)
    obtain out w1 where z: "z = (out, w1)" by (cases z)
    with Some have s: "exit_shape sys out" by (auto dest: loop_body_exit_shape)
    show ?thesis
    proof (cases out)
      case (Ret status)
      show ?thesis
      proof (cases "status = 0")
        case True
        with Some z Ret 1(2) show ?thesis by auto
      next
        case False
        with Some z Ret 1(2) have "loop sys w1 = Some y" by simp
        then show ?thesis by (rule 1(1))
      qed
    next
      case (ProcExit c)
      with Some z 1(2) have "fst y = ProcExit c" by auto
      with s ProcExit show ?thesis by simp
    next
      case (ImageReplaced f a)
      with Some z 1(2) have "fst y = ImageReplaced f a" by auto
      with s ImageReplaced show ?thesis by simp
    next
      case (Undefined f)
      with Some z 1(2) have "fst y = Undefined f" by auto
      then show ?thesis by simp
    qed
  qed
qed

lemma main_cases:
  "main sys w = Some (out, w') \<Longrightarrow>
     (out = Ret EXIT_SUCCESS \<and> lsh_loop sys w = Some (Ret (), w'))
     \<or> ((\<forall>c. out \<noteq> Ret c) \<and> exit_shape sys out)"
proof -
  assume a: "main sys w = Some (out, w')"
  then obtain y where y: "lsh_loop sys w = Some y"
    by (cases "lsh_loop sys w") (auto simp: main_def)
  obtain o1 w1 where o: "y = (o1, w1)" by (cases y)
  from lsh_loop_exit_shape [OF y] o have s: "exit_shape sys o1" by simp
  show ?thesis
  proof (cases o1)
    case (Ret u)
    with a y o show ?thesis by (auto simp: main_def)
  next
    case (ProcExit c)
    with a y o have "out = ProcExit c" by (simp add: main_def)
    with s ProcExit show ?thesis by simp
  next
    case (ImageReplaced f b)
    with a y o have "out = ImageReplaced f b" by (simp add: main_def)
    with s ImageReplaced show ?thesis by simp
  next
    case (Undefined f)
    with a y o have "out = Undefined f" by (simp add: main_def)
    then show ?thesis by simp
  qed
qed


subsection \<open>The exit code and the history of requests\<close>

lemma run_inv_same: "w_trace w' = w_trace w \<Longrightarrow> run_inv sys w w' False"
  by (simp add: run_inv_def)

lemma run_inv_one:
  "w_trace w' = w_trace w @ [EvAlloc n] \<Longrightarrow> run_inv sys w w' (fatal sys (tick w) (EvAlloc n))"
  by (simp add: run_inv_def)

lemma run_inv_quiet:
  assumes "w_trace w' = w_trace w @ evs"
    and "\<forall>e\<in>set evs. (\<exists>path. e = EvChdir path) \<or> e = EvFork \<or> (\<exists>pid opts. e = EvWaitpid pid opts)"
  shows "run_inv sys w w' False"
proof -
  have "\<forall>j<length evs. \<not> fatal sys (tick w + j) (evs ! j)
          \<and> (\<forall>prog argv. evs ! j \<noteq> EvExecvp prog argv)"
  proof (intro allI impI)
    fix j assume "j < length evs"
    then have "evs ! j \<in> set evs" by simp
    with assms(2) have "(\<exists>path. evs ! j = EvChdir path) \<or> evs ! j = EvFork
        \<or> (\<exists>pid opts. evs ! j = EvWaitpid pid opts)"
      by blast
    then show "\<not> fatal sys (tick w + j) (evs ! j) \<and> (\<forall>prog argv. evs ! j \<noteq> EvExecvp prog argv)"
      by (auto simp: fatal_def)
  qed
  with assms(1) show ?thesis
    unfolding run_inv_def by (intro exI [of _ evs]) simp
qed

lemma run_inv_start:
  "w_trace w0 = w_trace w \<Longrightarrow> run_inv sys w0 w' fin = run_inv sys w w' fin"
  by (simp add: run_inv_def tick_def)

lemma run_inv_trans:
  assumes "run_inv sys w w1 False" and "run_inv sys w1 w2 fin"
  shows "run_inv sys w w2 fin"
proof -
  from assms(1) obtain e1 where e1: "w_trace w1 = w_trace w @ e1"
    "\<forall>j<length e1. \<not> fatal sys (tick w + j) (e1 ! j)"
    "\<forall>j<length e1. \<forall>prog argv. e1 ! j = EvExecvp prog argv \<longrightarrow>
              0 < j \<and> e1 ! (j - 1) = EvFork \<and> os_fork sys (tick w + j - 1) = Inr 0"
    unfolding run_inv_def by auto
  from assms(2) obtain e2 where e2: "w_trace w2 = w_trace w1 @ e2"
    "\<forall>j<length e2. fatal sys (tick w1 + j) (e2 ! j) \<longrightarrow> fin \<and> Suc j = length e2"
    "fin \<longrightarrow> e2 \<noteq> [] \<and> fatal sys (tick w1 + length e2 - 1) (last e2)"
    "\<forall>j<length e2. \<forall>prog argv. e2 ! j = EvExecvp prog argv \<longrightarrow>
              0 < j \<and> e2 ! (j - 1) = EvFork \<and> os_fork sys (tick w1 + j - 1) = Inr 0"
    unfolding run_inv_def by auto
  have t1: "tick w1 = tick w + length e1"
    using e1(1) by (simp add: tick_def)
  have a: "w_trace w2 = w_trace w @ (e1 @ e2)"
    using e1(1) e2(1) by simp
  have b: "\<forall>j<length (e1 @ e2). fatal sys (tick w + j) ((e1 @ e2) ! j) \<longrightarrow>
             fin \<and> Suc j = length (e1 @ e2)"
  proof (intro allI impI)
    fix j assume j: "j < length (e1 @ e2)" and f: "fatal sys (tick w + j) ((e1 @ e2) ! j)"
    show "fin \<and> Suc j = length (e1 @ e2)"
    proof (cases "j < length e1")
      case True
      with e1(2) f show ?thesis by (simp add: nth_append)
    next
      case False
      then have "(e1 @ e2) ! j = e2 ! (j - length e1)" "tick w + j = tick w1 + (j - length e1)"
        "j - length e1 < length e2"
        using j t1 by (simp_all add: nth_append)
      with f e2(2) have "fin \<and> Suc (j - length e1) = length e2" by metis
      with False show ?thesis by auto
    qed
  qed
  have c: "fin \<longrightarrow> e1 @ e2 \<noteq> [] \<and> fatal sys (tick w + length (e1 @ e2) - 1) (last (e1 @ e2))"
  proof
    assume fin
    with e2(3) have n: "e2 \<noteq> []" and f: "fatal sys (tick w1 + length e2 - 1) (last e2)" by simp_all
    have "tick w + length (e1 @ e2) - 1 = tick w1 + length e2 - 1"
      using t1 by simp
    with n f show "e1 @ e2 \<noteq> [] \<and> fatal sys (tick w + length (e1 @ e2) - 1) (last (e1 @ e2))"
      by simp
  qed
  have d: "\<forall>j<length (e1 @ e2). \<forall>prog argv. (e1 @ e2) ! j = EvExecvp prog argv \<longrightarrow>
              0 < j \<and> (e1 @ e2) ! (j - 1) = EvFork \<and> os_fork sys (tick w + j - 1) = Inr 0"
  proof (intro allI impI)
    fix j prog argv
    assume j: "j < length (e1 @ e2)" and x: "(e1 @ e2) ! j = EvExecvp prog argv"
    show "0 < j \<and> (e1 @ e2) ! (j - 1) = EvFork \<and> os_fork sys (tick w + j - 1) = Inr 0"
    proof (cases "j < length e1")
      case True
      with x have "e1 ! j = EvExecvp prog argv" by (simp add: nth_append)
      with e1(3) True have "0 < j \<and> e1 ! (j - 1) = EvFork \<and> os_fork sys (tick w + j - 1) = Inr 0"
        by blast
      moreover from True have "j - 1 < length e1" by simp
      ultimately show ?thesis by (simp add: nth_append)
    next
      case False
      let ?k = "j - length e1"
      from False j x have k: "?k < length e2" "e2 ! ?k = EvExecvp prog argv"
        by (simp_all add: nth_append)
      with e2(4) have r: "0 < ?k" "e2 ! (?k - 1) = EvFork" "os_fork sys (tick w1 + ?k - 1) = Inr 0"
        by blast+
      from r(1) have "\<not> j - 1 < length e1" "j - 1 - length e1 = ?k - 1"
        "tick w + j - 1 = tick w1 + ?k - 1"
        using t1 by simp_all
      with r show ?thesis by (simp add: nth_append)
    qed
  qed
  from a b c d show ?thesis unfolding run_inv_def by blast
qed

lemma run_inv_end:
  "w_trace w'' = w_trace w' \<Longrightarrow> run_inv sys w w'' fin = run_inv sys w w' fin"
  by (simp add: run_inv_def)

lemma realloc_run:
  assumes "realloc sys p count width w = (r, w')"
  shows "run_inv sys w w' (r = None)"
proof -
  let ?ev = "EvAlloc (count * width)"
  have "w_trace w' = w_trace w @ [?ev]"
    using assms by (auto simp: realloc_def log_event_def split: if_splits)
  then have "run_inv sys w w' (fatal sys (tick w) ?ev)" by (rule run_inv_one)
  moreover have "fatal sys (tick w) ?ev = (r = None)"
    using assms by (auto simp: realloc_def fatal_def split: if_splits)
  ultimately show ?thesis by simp
qed

lemma malloc_run:
  assumes "malloc sys count width w = (r, w')"
  shows "run_inv sys w w' (r = None)"
proof -
  let ?ev = "EvAlloc (count * width)"
  have "w_trace w' = w_trace w @ [?ev]"
    using assms by (auto simp: malloc_def log_event_def split: if_splits)
  then have "run_inv sys w w' (fatal sys (tick w) ?ev)" by (rule run_inv_one)
  moreover have "fatal sys (tick w) ?ev = (r = None)"
    using assms by (auto simp: malloc_def fatal_def split: if_splits)
  ultimately show ?thesis by simp
qed

lemma alloc_error_trace [simp]: "w_trace (alloc_error w) = w_trace w"
  by (simp add: alloc_error_def print_err_def)

lemma run_ok_quiet:
  "w_trace w' = w_trace w \<Longrightarrow> out \<noteq> ProcExit EXIT_FAILURE \<Longrightarrow> run_ok sys w (out, w')"
  by (simp add: run_ok_def run_inv_same)

lemma run_ok_failed:
  "run_inv sys w w1 True \<Longrightarrow> run_ok sys w (ProcExit EXIT_FAILURE, alloc_error w1)"
  by (simp add: run_ok_def run_inv_end [of "alloc_error w1" w1])

lemma run_ok_trans:
  "run_inv sys w w1 False \<Longrightarrow> run_ok sys w1 r \<Longrightarrow> run_ok sys w r"
  unfolding run_ok_def by (rule run_inv_trans)

lemma run_ok_start:
  "w_trace w0 = w_trace w \<Longrightarrow> run_ok sys w0 r \<Longrightarrow> run_ok sys w r"
  using run_inv_start [of w0 w sys "snd r"] by (simp add: run_ok_def)

lemma read_loop_run:
  "w_stdin w = cs \<Longrightarrow> run_ok sys w (read_loop sys bufsize position buffer w)"
proof (induction cs arbitrary: w buffer bufsize position)
  case Nil
  then have "getchar w = (None, w)" by (simp add: getchar_def)
  then show ?case
    by (subst read_loop.simps) (simp add: run_ok_quiet split: sum.splits)
next
  case (Cons c cs)
  let ?w1 = "w\<lparr>w_stdin := cs\<rparr>"
  have g: "getchar w = (Some c, ?w1)"
    using Cons.prems(1) by (simp add: getchar_def)
  have tr: "w_trace ?w1 = w_trace w" by simp
  show ?case
  proof (cases "c = newline")
    case True
    with g show ?thesis
      by (subst read_loop.simps) (simp add: run_ok_quiet split: sum.splits)
  next
    case False
    show ?thesis
    proof (cases "store buffer position c")
      case (Inl f)
      with g False show ?thesis
        by (subst read_loop.simps) (simp add: run_ok_quiet)
    next
      case (Inr b1)
      show ?thesis
      proof (cases "position + 1 \<ge> bufsize")
        case grow: True
        show ?thesis
        proof (cases "bufsize + LSH_RL_BUFSIZE > INT_MAX")
          case True
          with g False Inr grow show ?thesis
            by (subst read_loop.simps) (simp add: run_ok_quiet)
        next
          case no: False
          obtain r w2 where re: "realloc sys b1 (bufsize + LSH_RL_BUFSIZE) sizeof_char ?w1 = (r, w2)"
            by (cases "realloc sys b1 (bufsize + LSH_RL_BUFSIZE) sizeof_char ?w1")
          from realloc_cases [OF re] have w2: "w_stdin w2 = cs" by simp
          from realloc_run [OF re] have ri: "run_inv sys w w2 (r = None)"
            by (simp add: run_inv_start [OF tr])
          show ?thesis
          proof (cases r)
            case None
            with ri have "run_ok sys w (ProcExit EXIT_FAILURE, alloc_error w2)"
              by (simp add: run_ok_failed)
            with g False Inr grow no re None show ?thesis
              by (subst read_loop.simps) simp
          next
            case (Some tmp)
            with ri have "run_inv sys w w2 False" by simp
            then have "run_ok sys w (read_loop sys (bufsize + LSH_RL_BUFSIZE) (position + 1) tmp w2)"
              using Cons.IH [OF w2] by (rule run_ok_trans)
            with g False Inr grow no re Some show ?thesis
              by (subst read_loop.simps) simp
          qed
        qed
      next
        case nogrow: False
        have "w_stdin ?w1 = cs" by simp
        from Cons.IH [OF this]
        have "run_ok sys w (read_loop sys bufsize (position + 1) b1 ?w1)"
          by (rule run_ok_start [OF tr])
        with g False Inr nogrow show ?thesis
          by (subst read_loop.simps) simp
      qed
    qed
  qed
qed

lemma split_loop_run:
  "run_ok sys w (split_loop sys bufsize position tokens token save w)"
proof (induction sys bufsize position tokens token save w rule: split_loop.induct)
  case (1 sys bufsize position tokens token save w)
  show ?case
  proof (cases token)
    case None
    then show ?thesis
      by (subst split_loop.simps) (simp add: run_ok_quiet split: sum.splits)
  next
    case (Some tok)
    obtain token1 save1 where tk: "strtok None LSH_TOK_DELIM save = (token1, save1)"
      by (cases "strtok None LSH_TOK_DELIM save")
    show ?thesis
    proof (cases "store tokens position (Some tok)")
      case (Inl f)
      with Some show ?thesis
        by (subst split_loop.simps) (simp add: run_ok_quiet)
    next
      case (Inr t1)
      show ?thesis
      proof (cases "position + 1 \<ge> bufsize")
        case grow: True
        show ?thesis
        proof (cases "bufsize + LSH_TOK_BUFSIZE > INT_MAX")
          case True
          with Some Inr grow show ?thesis
            by (subst split_loop.simps) (simp add: run_ok_quiet)
        next
          case no: False
          obtain r w1 where re: "realloc sys t1 (bufsize + LSH_TOK_BUFSIZE) sizeof_ptr w = (r, w1)"
            by (cases "realloc sys t1 (bufsize + LSH_TOK_BUFSIZE) sizeof_ptr w")
          note ri = realloc_run [OF re]
          show ?thesis
          proof (cases r)
            case None
            with ri have "run_ok sys w (ProcExit EXIT_FAILURE, alloc_error w1)"
              by (simp add: run_ok_failed)
            with Some Inr grow no re None show ?thesis
              by (subst split_loop.simps) simp
          next
            case tmp: (Some tmp)
            with ri have "run_inv sys w w1 False" by simp
            then have "run_ok sys w (split_loop sys (bufsize + LSH_TOK_BUFSIZE) (position + 1)
                    tmp token1 save1 w1)"
              using 1(1) [OF Some Inr grow no re [symmetric] tmp tk [symmetric]]
              by (rule run_ok_trans)
            with Some Inr grow no re tmp tk show ?thesis
              by (subst split_loop.simps) simp
          qed
        qed
      next
        case nogrow: False
        from 1(2) [OF Some Inr nogrow tk [symmetric]]
        have "run_ok sys w (split_loop sys bufsize (position + 1) t1 token1 save1 w)" .
        with Some Inr nogrow tk show ?thesis
          by (subst split_loop.simps) simp
      qed
    qed
  qed
qed

lemma lsh_read_line_run: "run_ok sys w (lsh_read_line sys w)"
proof -
  obtain r w1 where m: "malloc sys LSH_RL_BUFSIZE sizeof_char w = (r :: char cell list option, w1)"
    by (cases "malloc sys LSH_RL_BUFSIZE sizeof_char w :: char cell list option \<times> world")
  note ri = malloc_run [OF m]
  show ?thesis
  proof (cases r)
    case None
    with ri have "run_ok sys w (ProcExit EXIT_FAILURE :: char cell list outcome, alloc_error w1)"
      by (simp add: run_ok_failed)
    with m None show ?thesis by (simp add: lsh_read_line_def)
  next
    case (Some buffer)
    with ri have "run_inv sys w w1 False" by simp
    then have "run_ok sys w (read_loop sys LSH_RL_BUFSIZE 0 buffer w1)"
      using read_loop_run [OF refl] by (rule run_ok_trans)
    with m Some show ?thesis by (simp add: lsh_read_line_def)
  qed
qed

lemma lsh_split_line_run: "run_ok sys w (lsh_split_line sys line w)"
proof -
  obtain r w1 where m: "malloc sys LSH_TOK_BUFSIZE sizeof_ptr w = (r :: string option cell list option, w1)"
    by (cases "malloc sys LSH_TOK_BUFSIZE sizeof_ptr w :: string option cell list option \<times> world")
  obtain token save where tk: "strtok (Some line) LSH_TOK_DELIM [] = (token, save)"
    by (cases "strtok (Some line) LSH_TOK_DELIM []")
  note ri = malloc_run [OF m]
  show ?thesis
  proof (cases r)
    case None
    with ri have "run_ok sys w (ProcExit EXIT_FAILURE :: string option cell list outcome, alloc_error w1)"
      by (simp add: run_ok_failed)
    with m None show ?thesis by (simp add: lsh_split_line_def)
  next
    case (Some tokens)
    with ri have "run_inv sys w w1 False" by simp
    then have "run_ok sys w (split_loop sys LSH_TOK_BUFSIZE 0 tokens token save w1)"
      using split_loop_run by (rule run_ok_trans)
    with m tk Some show ?thesis by (simp add: lsh_split_line_def)
  qed
qed


lemma read_command_run: "run_ok sys w (read_command sys w)"
proof -
  let ?w0 = "print_out ''> '' w"
  have tr: "w_trace ?w0 = w_trace w" by (simp add: print_out_def)
  obtain o1 w1 where r: "lsh_read_line sys ?w0 = (o1, w1)" by (cases "lsh_read_line sys ?w0")
  from lsh_read_line_run [of sys ?w0] r have "run_ok sys ?w0 (o1, w1)" by simp
  then have "run_ok sys w (o1, w1)" by (rule run_ok_start [OF tr])
  then have s1: "run_inv sys w w1 (o1 = ProcExit EXIT_FAILURE)" by (simp add: run_ok_def)
  show ?thesis
  proof (cases o1)
    case (Ret buffer)
    with s1 have q: "run_inv sys w w1 False" by simp
    show ?thesis
    proof (cases "c_str buffer")
      case (Inl f)
      with r Ret q show ?thesis by (simp add: read_command_def run_ok_def)
    next
      case (Inr line)
      obtain o2 w2 where s: "lsh_split_line sys line w1 = (o2, w2)"
        by (cases "lsh_split_line sys line w1")
      from lsh_split_line_run [of sys w1 line] s have "run_ok sys w1 (o2, w2)" by simp
      with q have "run_ok sys w (o2, w2)" by (rule run_ok_trans)
      then have s2: "run_inv sys w w2 (o2 = ProcExit EXIT_FAILURE)" by (simp add: run_ok_def)
      with r Ret Inr s show ?thesis
        by (cases o2) (simp_all add: read_command_def run_ok_def split: sum.splits)
    qed
  next
    case (ProcExit c)
    with r s1 show ?thesis by (simp add: read_command_def run_ok_def)
  next
    case (ImageReplaced f a)
    with r s1 show ?thesis by (simp add: read_command_def run_ok_def)
  next
    case (Undefined f)
    with r s1 show ?thesis by (simp add: read_command_def run_ok_def)
  qed
qed

lemma help_loop_trace: "w_trace (help_loop i w) = w_trace w"
proof (induction i w rule: help_loop.induct)
  case (1 i w)
  show ?case
  proof (cases "i < lsh_num_builtins")
    case True
    with 1 show ?thesis by (subst help_loop.simps) (simp add: print_out_def)
  next
    case False
    then show ?thesis by (subst help_loop.simps) simp
  qed
qed

lemma lsh_help_run: "run_ok sys w (lsh_help sys args w)"
  by (simp add: lsh_help_def Let_def run_ok_def run_inv_same help_loop_trace print_out_def)

lemma lsh_exit_run: "run_ok sys w (lsh_exit sys args w)"
  by (simp add: lsh_exit_def run_ok_def run_inv_same)

lemma fatal_simps [simp]:
  "fatal sys t (EvAlloc n) = (\<not> os_alloc sys t n)"
  "fatal sys t (EvChdir path) = False"
  "fatal sys t EvFork = False"
  "fatal sys t (EvExecvp file argv) = (os_execvp sys t file argv \<noteq> None)"
  "fatal sys t (EvWaitpid pid options) = False"
  by (simp_all add: fatal_def)

lemma lsh_cd_run: "run_ok sys w (lsh_cd sys args w)"
proof (cases "arg_at args 1")
  case (Inl f)
  then show ?thesis by (simp add: lsh_cd_def run_ok_def run_inv_same)
next
  case (Inr a)
  show ?thesis
  proof (cases a)
    case None
    with Inr show ?thesis by (simp add: lsh_cd_def run_ok_def run_inv_same print_err_def)
  next
    case (Some path)
    obtain r w1 where c: "chdir sys path w = (r, w1)" by (cases "chdir sys path w")
    then have t: "w_trace w1 = w_trace w @ [EvChdir path]"
      by (auto simp: chdir_def log_event_def split: sum.splits)
    then have "w_trace (perror sys ''lsh'' w1) = w_trace w @ [EvChdir path]"
      by (simp add: perror_def print_err_def)
    with t have "run_inv sys w w1 False" "run_inv sys w (perror sys ''lsh'' w1) False"
      by (auto intro: run_inv_quiet)
    with Inr Some c show ?thesis by (simp add: lsh_cd_def run_ok_def)
  qed
qed

lemma lsh_launch_run:
  assumes "lsh_launch sys args w = Some (out, w')"
  shows "run_inv sys w w' (out = ProcExit EXIT_FAILURE)"
proof -
  obtain pid w1 where f: "fork sys w = (pid, w1)" by (cases "fork sys w")
  then have t1: "w_trace w1 = w_trace w @ [EvFork]"
    by (auto simp: fork_def log_event_def split: sum.splits)
  then have k1: "tick w1 = Suc (tick w)" by (simp add: tick_def)
  consider "pid = 0" | "pid < 0" | "0 < pid" by linarith
  then show ?thesis
  proof cases
    case 1
    show ?thesis
    proof (cases "arg_at args 0")
      case (Inl g)
      with assms f 1 have "out = Undefined g" "w' = w1" by (simp_all add: lsh_launch_def)
      with t1 show ?thesis by (auto intro: run_inv_quiet)
    next
      case (Inr prog)
      let ?ev = "EvExecvp prog args"
      show ?thesis
      proof (cases "os_execvp sys (tick w1) prog args")
        case None
        then have "execvp sys prog args w1 = (None, log_event ?ev w1)"
          by (simp add: execvp_def)
        with assms f 1 Inr have o: "out = ImageReplaced (case prog of None \<Rightarrow> [] | Some a \<Rightarrow> a) args"
          and "w' = log_event ?ev w1"
          by (simp_all add: lsh_launch_def)
        then have "w_trace w' = w_trace w @ [EvFork, ?ev]"
          using t1 by (simp add: log_event_def)
        moreover have "\<not> fatal sys (tick w + 1) ?ev"
          using None k1 by simp
        moreover have "os_fork sys (tick w) = Inr 0"
          using f 1 by (auto simp: fork_def split: sum.splits)
        ultimately have "run_inv sys w w' False"
          unfolding run_inv_def by (intro exI [of _ "[EvFork, ?ev]"]) (simp add: less_Suc_eq)
        with o show ?thesis by simp
      next
        case (Some e)
        then have "execvp sys prog args w1 = (Some (- 1), (log_event ?ev w1)\<lparr>w_errno := e\<rparr>)"
          by (simp add: execvp_def)
        with assms f 1 Inr have o: "out = ProcExit EXIT_FAILURE"
          and "w' = perror sys ''lsh'' ((log_event ?ev w1)\<lparr>w_errno := e\<rparr>)"
          by (simp_all add: lsh_launch_def)
        then have "w_trace w' = w_trace w @ [EvFork, ?ev]"
          using t1 by (simp add: log_event_def perror_def print_err_def)
        moreover have "fatal sys (tick w + 1) ?ev"
          using Some k1 by simp
        moreover have "os_fork sys (tick w) = Inr 0"
          using f 1 by (auto simp: fork_def split: sum.splits)
        ultimately have "run_inv sys w w' True"
          unfolding run_inv_def by (intro exI [of _ "[EvFork, ?ev]"]) (simp add: less_Suc_eq)
        with o show ?thesis by simp
      qed
    qed
  next
    case 2
    with assms f have "out = Ret 1" "w' = perror sys ''lsh'' w1" by (simp_all add: lsh_launch_def)
    with t1 show ?thesis by (auto simp: perror_def print_err_def intro: run_inv_quiet)
  next
    case 3
    with assms f obtain s where wl: "wait_loop sys pid (os_unassigned sys (tick w)) w1 = Some (s, w')"
      and o: "out = Ret 1"
      by (auto simp: lsh_launch_def split: option.splits prod.splits)
    from wait_loop_sound_aux [OF wl] obtain n where
      "w_trace w' = w_trace w1 @ replicate (Suc n) (EvWaitpid pid WUNTRACED)"
      by (auto simp: wait_post_def)
    with t1 have "w_trace w' = w_trace w @ EvFork # replicate (Suc n) (EvWaitpid pid WUNTRACED)"
      by simp
    then have "run_inv sys w w' False"
      by (rule run_inv_quiet) auto
    with o show ?thesis by simp
  qed
qed

lemma lsh_execute_run:
  assumes "lsh_execute sys args w = Some (out, w')"
  shows "run_inv sys w w' (out = ProcExit EXIT_FAILURE)"
proof (cases args)
  case Nil
  with assms show ?thesis by (auto simp: lsh_execute_cases run_inv_same)
next
  case (Cons a0 rest)
  consider "a0 = ''cd''" | "a0 = ''help''" | "a0 = ''exit''"
    | "a0 \<noteq> ''cd''" "a0 \<noteq> ''help''" "a0 \<noteq> ''exit''" by blast
  then show ?thesis
  proof cases
    case 1
    with assms Cons have "lsh_cd sys args w = (out, w')" by (simp add: lsh_execute_cases)
    with lsh_cd_run [of sys w args] show ?thesis by (simp add: run_ok_def)
  next
    case 2
    with assms Cons have "lsh_help sys args w = (out, w')" by (simp add: lsh_execute_cases)
    with lsh_help_run [of sys w args] show ?thesis by (simp add: run_ok_def)
  next
    case 3
    with assms Cons have "lsh_exit sys args w = (out, w')" by (simp add: lsh_execute_cases)
    with lsh_exit_run [of sys w args] show ?thesis by (simp add: run_ok_def)
  next
    case 4
    with assms Cons have "lsh_launch sys args w = Some (out, w')" by (simp add: lsh_execute_cases)
    then show ?thesis by (rule lsh_launch_run)
  qed
qed

lemma loop_body_run:
  assumes "loop_body sys w = Some (out, w')"
  shows "run_inv sys w w' (out = ProcExit EXIT_FAILURE)"
proof -
  obtain o1 w1 where r: "read_command sys w = (o1, w1)" by (cases "read_command sys w")
  with read_command_run [of sys w] have s1: "run_inv sys w w1 (o1 = ProcExit EXIT_FAILURE)"
    by (simp add: run_ok_def)
  show ?thesis
  proof (cases o1)
    case (Ret args)
    with assms r have "lsh_execute sys args w1 = Some (out, w')" by (simp add: loop_body_def)
    then have "run_inv sys w1 w' (out = ProcExit EXIT_FAILURE)" by (rule lsh_execute_run)
    moreover from s1 Ret have "run_inv sys w w1 False" by simp
    ultimately show ?thesis by (rule run_inv_trans [rotated])
  next
    case (ProcExit c)
    with assms r have "out = ProcExit c" "w' = w1" by (simp_all add: loop_body_def)
    with s1 ProcExit show ?thesis by simp
  next
    case (ImageReplaced f a)
    with assms r have "out = ImageReplaced f a" "w' = w1" by (simp_all add: loop_body_def)
    with s1 ImageReplaced show ?thesis by simp
  next
    case (Undefined f)
    with assms r have "out = Undefined f" "w' = w1" by (simp_all add: loop_body_def)
    with s1 Undefined show ?thesis by simp
  qed
qed

lemma lsh_loop_run:
  "lsh_loop sys w = Some y \<Longrightarrow> run_inv sys w (snd y) (fst y = ProcExit EXIT_FAILURE)"
proof (induction rule: lsh_loop.raw_induct [rotated 1, consumes 1])
  case (1 loop sys w y)
  show ?case
  proof (cases "loop_body sys w")
    case None
    with 1(2) show ?thesis by simp
  next
    case (Some z)
    obtain out w1 where z: "z = (out, w1)" by (cases z)
    with Some have s: "run_inv sys w w1 (out = ProcExit EXIT_FAILURE)"
      by (auto dest: loop_body_run)
    show ?thesis
    proof (cases out)
      case (Ret status)
      with s have q: "run_inv sys w w1 False" by simp
      show ?thesis
      proof (cases "status = 0")
        case True
        with Some z Ret 1(2) have "y = (Ret (), w1)" by auto
        with q show ?thesis by simp
      next
        case False
        with Some z Ret 1(2) have "loop sys w1 = Some y" by simp
        then have "run_inv sys w1 (snd y) (fst y = ProcExit EXIT_FAILURE)" by (rule 1(1))
        with q show ?thesis by (rule run_inv_trans)
      qed
    next
      case (ProcExit c)
      with Some z 1(2) have "y = (ProcExit c, w1)" by auto
      with s ProcExit show ?thesis by simp
    next
      case (ImageReplaced f a)
      with Some z 1(2) have "y = (ImageReplaced f a, w1)" by auto
      with s ImageReplaced show ?thesis by simp
    next
      case (Undefined f)
      with Some z 1(2) have "y = (Undefined f, w1)" by auto
      with s Undefined show ?thesis by simp
    qed
  qed
qed

lemma main_run:
  assumes "main sys w = Some (out, w')"
  shows "run_inv sys w w' (out = ProcExit EXIT_FAILURE)"
proof -
  from assms obtain y where y: "lsh_loop sys w = Some y"
    by (cases "lsh_loop sys w") (auto simp: main_def)
  obtain o1 w1 where o: "y = (o1, w1)" by (cases y)
  from lsh_loop_run [OF y] o have s: "run_inv sys w w1 (o1 = ProcExit EXIT_FAILURE)" by simp
  show ?thesis
  proof (cases o1)
    case (Ret u)
    with assms y o have "out = Ret EXIT_SUCCESS" "w' = w1" by (simp_all add: main_def)
    with s Ret show ?thesis by simp
  next
    case (ProcExit c)
    with assms y o have "out = ProcExit c" "w' = w1" by (simp_all add: main_def)
    with s ProcExit show ?thesis by simp
  next
    case (ImageReplaced f b)
    with assms y o have "out = ImageReplaced f b" "w' = w1" by (simp_all add: main_def)
    with s ImageReplaced show ?thesis by simp
  next
    case (Undefined f)
    with assms y o have "out = Undefined f" "w' = w1" by (simp_all add: main_def)
    with s Undefined show ?thesis by simp
  qed
qed


lemma fatal_last:
  assumes "fatal sys t ev" and "\<forall>prog argv. ev \<noteq> EvExecvp prog argv"
  shows "\<exists>n. ev = EvAlloc n \<and> \<not> os_alloc sys t n"
  using assms by (cases ev) (simp_all add: fatal_def)

lemma exit_in_turn:
  assumes "fst (read_command sys w) = ProcExit c"
  shows "main sys w = Some (ProcExit c, snd (read_command sys w))"
proof -
  obtain o1 w1 where r: "read_command sys w = (o1, w1)" by (cases "read_command sys w")
  with assms have o: "o1 = ProcExit c" by simp
  with r have "loop_body sys w = Some (ProcExit c, w1)"
    by (simp add: loop_body_def)
  then have "lsh_loop sys w = Some (ProcExit c, w1)"
    by (subst lsh_loop.simps) simp
  with r show ?thesis by (simp add: main_def)
qed

lemma exit_in_child:
  assumes "read_command sys w = (Ret (a0 # rest), w1)" and "a0 \<notin> set builtin_str"
    and "os_fork sys (tick w1) = Inr 0"
    and "os_execvp sys (tick w1 + 1) (Some a0) (a0 # rest) = Some e"
  shows "\<exists>w2. main sys w = Some (ProcExit EXIT_FAILURE, w2)"
proof -
  have "lsh_execute sys (a0 # rest) w1 = lsh_launch sys (a0 # rest) w1"
    by (rule lsh_execute_external) (use assms(2) in simp_all)
  also have "\<dots> = Some (ProcExit EXIT_FAILURE,
      perror sys ''lsh''
        ((log_event (EvExecvp (Some a0) (a0 # rest)) (log_event EvFork w1))\<lparr>w_errno := e\<rparr>))"
    using assms(3,4) by (simp add: lsh_launch_def fork_def execvp_def arg_at_def)
  finally have "loop_body sys w = Some (ProcExit EXIT_FAILURE,
      perror sys ''lsh''
        ((log_event (EvExecvp (Some a0) (a0 # rest)) (log_event EvFork w1))\<lparr>w_errno := e\<rparr>))"
    using assms(1) by (simp add: loop_body_def)
  then have "lsh_loop sys w = Some (ProcExit EXIT_FAILURE,
      perror sys ''lsh''
        ((log_event (EvExecvp (Some a0) (a0 # rest)) (log_event EvFork w1))\<lparr>w_errno := e\<rparr>))"
    by (subst lsh_loop.simps) simp
  then show ?thesis by (simp add: main_def)
qed

text \<open>Claim C8, as amended. First, whenever the process ends, by returning from \<open>main\<close> or
  by \<open>exit\<close>: a return from \<open>main\<close> is with the success code; the exit code is the success code
  or the failure code, and the failure code only if an allocation failed or the process is
  a child that \<open>fork\<close> created; so when every allocation succeeds, the interpreter's own
  process can only end with the success code, whatever the commands it ran did and
  whatever \<open>waitpid\<close> reported about them: no status of a child is ever part of the exit
  code. In the history \<open>evs\<close> of the requests of the run, every allocation that fails, in the
  Line Reader or in the Tokenizer, the first one or one that grows the array, is the last
  request and the process ended there with the failure code, and so is a failed \<open>execvp\<close>;
  the process ended with the failure code only right after such a request; \<open>execvp\<close> is
  requested only right after a \<open>fork\<close> that returned 0, that is, in the child; hence in the
  interpreter's own process the failure code follows a failed allocation. Second, the
  process does end there: in a turn of the loop that starts in any state \<open>wt\<close>, reading and
  tokenizing the line always come to an end, and when an allocation fails in them the
  process ends with the failure code. Third, when the turn is in a forked child and
  \<open>execvp\<close> fails, the process ends with the failure code.\<close>

theorem main_exit_code:
  "(main sys w = Some (out, w') \<longrightarrow>
     (out = Ret c \<longrightarrow> c = EXIT_SUCCESS)
     \<and> (exit_code out = Some c \<longrightarrow>
          c = EXIT_SUCCESS
          \<or> (c = EXIT_FAILURE \<and> ((\<exists>t n. \<not> os_alloc sys t n) \<or> (\<exists>t. os_fork sys t = Inr 0))))
     \<and> ((\<forall>t n. os_alloc sys t n) \<and> (\<forall>t. os_fork sys t \<noteq> Inr 0) \<and> exit_code out = Some c \<longrightarrow>
          c = EXIT_SUCCESS)
     \<and> (\<exists>evs. w_trace w' = w_trace w @ evs
          \<and> (\<forall>j<length evs. fatal sys (tick w + j) (evs ! j) \<longrightarrow>
                out = ProcExit EXIT_FAILURE \<and> Suc j = length evs)
          \<and> (exit_code out = Some EXIT_FAILURE \<longrightarrow>
                out = ProcExit EXIT_FAILURE \<and> evs \<noteq> []
                \<and> fatal sys (tick w + length evs - 1) (last evs))
          \<and> (\<forall>j<length evs. \<forall>prog argv. evs ! j = EvExecvp prog argv \<longrightarrow>
                0 < j \<and> evs ! (j - 1) = EvFork \<and> os_fork sys (tick w + j - 1) = Inr 0)
          \<and> ((\<forall>t. os_fork sys t \<noteq> Inr 0) \<and> exit_code out = Some EXIT_FAILURE \<longrightarrow>
                (\<exists>n. last evs = EvAlloc n \<and> \<not> os_alloc sys (tick w + length evs - 1) n))))
   \<and> (\<exists>evs. w_trace (snd (read_command sys wt)) = w_trace wt @ evs
          \<and> (\<forall>j<length evs. fatal sys (tick wt + j) (evs ! j) \<longrightarrow>
                Suc j = length evs
                \<and> fst (read_command sys wt) = ProcExit EXIT_FAILURE
                \<and> main sys wt = Some (ProcExit EXIT_FAILURE, snd (read_command sys wt))))
   \<and> (read_command sys wt = (Ret (a0 # rest), w1) \<and> a0 \<notin> set builtin_str
        \<and> os_fork sys (tick w1) = Inr 0
        \<and> os_execvp sys (tick w1 + 1) (Some a0) (a0 # rest) = Some e \<longrightarrow>
        (\<exists>w2. main sys wt = Some (ProcExit EXIT_FAILURE, w2)))"
proof -
  have ended: "main sys w = Some (out, w') \<longrightarrow>
     (out = Ret c \<longrightarrow> c = EXIT_SUCCESS)
     \<and> (exit_code out = Some c \<longrightarrow>
          c = EXIT_SUCCESS
          \<or> (c = EXIT_FAILURE \<and> ((\<exists>t n. \<not> os_alloc sys t n) \<or> (\<exists>t. os_fork sys t = Inr 0))))
     \<and> ((\<forall>t n. os_alloc sys t n) \<and> (\<forall>t. os_fork sys t \<noteq> Inr 0) \<and> exit_code out = Some c \<longrightarrow>
          c = EXIT_SUCCESS)
     \<and> (\<exists>evs. w_trace w' = w_trace w @ evs
          \<and> (\<forall>j<length evs. fatal sys (tick w + j) (evs ! j) \<longrightarrow>
                out = ProcExit EXIT_FAILURE \<and> Suc j = length evs)
          \<and> (exit_code out = Some EXIT_FAILURE \<longrightarrow>
                out = ProcExit EXIT_FAILURE \<and> evs \<noteq> []
                \<and> fatal sys (tick w + length evs - 1) (last evs))
          \<and> (\<forall>j<length evs. \<forall>prog argv. evs ! j = EvExecvp prog argv \<longrightarrow>
                0 < j \<and> evs ! (j - 1) = EvFork \<and> os_fork sys (tick w + j - 1) = Inr 0)
          \<and> ((\<forall>t. os_fork sys t \<noteq> Inr 0) \<and> exit_code out = Some EXIT_FAILURE \<longrightarrow>
                (\<exists>n. last evs = EvAlloc n \<and> \<not> os_alloc sys (tick w + length evs - 1) n)))"
  proof
    assume a: "main sys w = Some (out, w')"
    from main_cases [OF a]
    consider "out = Ret EXIT_SUCCESS" | "\<forall>c. out \<noteq> Ret c" "exit_shape sys out"
      by blast
    then have old: "(out = Ret c \<longrightarrow> c = EXIT_SUCCESS)
       \<and> (exit_code out = Some c \<longrightarrow>
            c = EXIT_SUCCESS
            \<or> (c = EXIT_FAILURE \<and> ((\<exists>t n. \<not> os_alloc sys t n) \<or> (\<exists>t. os_fork sys t = Inr 0))))
       \<and> ((\<forall>t n. os_alloc sys t n) \<and> (\<forall>t. os_fork sys t \<noteq> Inr 0) \<and> exit_code out = Some c \<longrightarrow>
            c = EXIT_SUCCESS)"
    proof cases
      case 1
      then show ?thesis by simp
    next
      case 2
      then show ?thesis
        by (cases out) auto
    qed
    have fe: "exit_code out = Some EXIT_FAILURE \<longrightarrow> out = ProcExit EXIT_FAILURE"
      using main_cases [OF a]
      by (cases out) (auto simp: EXIT_FAILURE_def EXIT_SUCCESS_def)
    from main_run [OF a] obtain evs where evs: "w_trace w' = w_trace w @ evs"
      "\<forall>j<length evs. fatal sys (tick w + j) (evs ! j) \<longrightarrow>
          out = ProcExit EXIT_FAILURE \<and> Suc j = length evs"
      "out = ProcExit EXIT_FAILURE \<longrightarrow> evs \<noteq> [] \<and> fatal sys (tick w + length evs - 1) (last evs)"
      "\<forall>j<length evs. \<forall>prog argv. evs ! j = EvExecvp prog argv \<longrightarrow>
          0 < j \<and> evs ! (j - 1) = EvFork \<and> os_fork sys (tick w + j - 1) = Inr 0"
      unfolding run_inv_def by blast
    have own: "(\<forall>t. os_fork sys t \<noteq> Inr 0) \<and> exit_code out = Some EXIT_FAILURE \<longrightarrow>
                  (\<exists>n. last evs = EvAlloc n \<and> \<not> os_alloc sys (tick w + length evs - 1) n)"
    proof
      assume h: "(\<forall>t. os_fork sys t \<noteq> Inr 0) \<and> exit_code out = Some EXIT_FAILURE"
      with fe evs(3) have ne: "evs \<noteq> []" and f: "fatal sys (tick w + length evs - 1) (last evs)"
        by simp_all
      have "\<forall>prog argv. last evs \<noteq> EvExecvp prog argv"
      proof (intro allI notI)
        fix prog argv assume "last evs = EvExecvp prog argv"
        with ne have "evs ! (length evs - 1) = EvExecvp prog argv" "length evs - 1 < length evs"
          by (simp_all add: last_conv_nth)
        with evs(4) have "os_fork sys (tick w + (length evs - 1) - 1) = Inr 0" by blast
        with h show False by blast
      qed
      with f show "\<exists>n. last evs = EvAlloc n \<and> \<not> os_alloc sys (tick w + length evs - 1) n"
        by (rule fatal_last)
    qed
    have hist: "\<exists>evs. w_trace w' = w_trace w @ evs
            \<and> (\<forall>j<length evs. fatal sys (tick w + j) (evs ! j) \<longrightarrow>
                  out = ProcExit EXIT_FAILURE \<and> Suc j = length evs)
            \<and> (exit_code out = Some EXIT_FAILURE \<longrightarrow>
                  out = ProcExit EXIT_FAILURE \<and> evs \<noteq> []
                  \<and> fatal sys (tick w + length evs - 1) (last evs))
            \<and> (\<forall>j<length evs. \<forall>prog argv. evs ! j = EvExecvp prog argv \<longrightarrow>
                  0 < j \<and> evs ! (j - 1) = EvFork \<and> os_fork sys (tick w + j - 1) = Inr 0)
            \<and> ((\<forall>t. os_fork sys t \<noteq> Inr 0) \<and> exit_code out = Some EXIT_FAILURE \<longrightarrow>
                  (\<exists>n. last evs = EvAlloc n \<and> \<not> os_alloc sys (tick w + length evs - 1) n))"
      using evs fe own by (intro exI [of _ evs]) blast
    from old hist
    show "(out = Ret c \<longrightarrow> c = EXIT_SUCCESS)
       \<and> (exit_code out = Some c \<longrightarrow>
            c = EXIT_SUCCESS
            \<or> (c = EXIT_FAILURE \<and> ((\<exists>t n. \<not> os_alloc sys t n) \<or> (\<exists>t. os_fork sys t = Inr 0))))
       \<and> ((\<forall>t n. os_alloc sys t n) \<and> (\<forall>t. os_fork sys t \<noteq> Inr 0) \<and> exit_code out = Some c \<longrightarrow>
            c = EXIT_SUCCESS)
       \<and> (\<exists>evs. w_trace w' = w_trace w @ evs
            \<and> (\<forall>j<length evs. fatal sys (tick w + j) (evs ! j) \<longrightarrow>
                  out = ProcExit EXIT_FAILURE \<and> Suc j = length evs)
            \<and> (exit_code out = Some EXIT_FAILURE \<longrightarrow>
                  out = ProcExit EXIT_FAILURE \<and> evs \<noteq> []
                  \<and> fatal sys (tick w + length evs - 1) (last evs))
            \<and> (\<forall>j<length evs. \<forall>prog argv. evs ! j = EvExecvp prog argv \<longrightarrow>
                  0 < j \<and> evs ! (j - 1) = EvFork \<and> os_fork sys (tick w + j - 1) = Inr 0)
            \<and> ((\<forall>t. os_fork sys t \<noteq> Inr 0) \<and> exit_code out = Some EXIT_FAILURE \<longrightarrow>
                  (\<exists>n. last evs = EvAlloc n \<and> \<not> os_alloc sys (tick w + length evs - 1) n)))"
      by blast
  qed
  from read_command_run [of sys wt] obtain evs where
    evs: "w_trace (snd (read_command sys wt)) = w_trace wt @ evs"
    "\<forall>j<length evs. fatal sys (tick wt + j) (evs ! j) \<longrightarrow>
        fst (read_command sys wt) = ProcExit EXIT_FAILURE \<and> Suc j = length evs"
    unfolding run_ok_def run_inv_def by blast
  have "\<forall>j<length evs. fatal sys (tick wt + j) (evs ! j) \<longrightarrow>
                Suc j = length evs
                \<and> fst (read_command sys wt) = ProcExit EXIT_FAILURE
                \<and> main sys wt = Some (ProcExit EXIT_FAILURE, snd (read_command sys wt))"
    using evs(2) exit_in_turn [of sys wt EXIT_FAILURE] by blast
  with evs(1)
  have turn: "\<exists>evs. w_trace (snd (read_command sys wt)) = w_trace wt @ evs
          \<and> (\<forall>j<length evs. fatal sys (tick wt + j) (evs ! j) \<longrightarrow>
                Suc j = length evs
                \<and> fst (read_command sys wt) = ProcExit EXIT_FAILURE
                \<and> main sys wt = Some (ProcExit EXIT_FAILURE, snd (read_command sys wt)))"
    by blast
  have child: "read_command sys wt = (Ret (a0 # rest), w1) \<and> a0 \<notin> set builtin_str
        \<and> os_fork sys (tick w1) = Inr 0
        \<and> os_execvp sys (tick w1 + 1) (Some a0) (a0 # rest) = Some e \<longrightarrow>
        (\<exists>w2. main sys wt = Some (ProcExit EXIT_FAILURE, w2))"
    using exit_in_child [of sys wt a0 rest w1 e] by blast
  from ended turn child show ?thesis by (intro conjI)
qed

text \<open>A run of two commands: \<open>ls\<close>, whose child is reported exited with code 42, then
  \<open>exit\<close>.\<close>

lemma two_commands_run:
  "\<exists>w'. main os_grant (world0\<lparr>w_stdin := ''ls'' @ [newline] @ ''exit'' @ [newline]\<rparr>)
          = Some (Ret EXIT_SUCCESS, w')"
proof -
  let ?w0 = "world0\<lparr>w_stdin := ''ls'' @ [newline] @ ''exit'' @ [newline]\<rparr>"
  have nl: "newline \<notin> set ''ls''" "newline \<notin> set ''exit''" by (simp_all add: newline_def)
  have l1: "takeWhile (\<lambda>c. c \<noteq> newline) (w_stdin ?w0) = ''ls''"
    using takeWhile_line [OF nl(1), of "''exit'' @ [newline]"] by simp
  have d1: "drop 1 (dropWhile (\<lambda>c. c \<noteq> newline) (w_stdin ?w0)) = ''exit'' @ [newline]"
    using dropWhile_line [OF nl(1), of "''exit'' @ [newline]"] by simp
  have "length (takeWhile (\<lambda>c. c \<noteq> newline) (w_stdin ?w0)) + LSH_RL_BUFSIZE \<le> INT_MAX"
    unfolding l1 by (simp add: LSH_RL_BUFSIZE_def INT_MAX_def)
  from read_command_ok [OF os_grant_alloc this]
  obtain w1 where rc1: "read_command os_grant ?w0 = (Ret [''ls''], w1)"
    and in1: "w_stdin w1 = ''exit'' @ [newline]"
    unfolding l1 d1 by (auto simp: NUL_def spec_tokens_def spec_delim_def)
  have "lsh_execute os_grant [''ls''] w1 = lsh_launch os_grant [''ls''] w1"
    by (rule lsh_execute_external) (simp_all add: builtin_str_def)
  moreover have "\<exists>w2. lsh_launch os_grant [''ls''] w1 = Some (Ret 1, w2) \<and> w_stdin w2 = w_stdin w1"
  proof -
    have "os_fork os_grant (tick w1) = Inr 7" "(0::int) < 7"
      "os_waitpid os_grant (tick w1 + 1) 7 WUNTRACED =
         Inr (if tick w1 + 1 = 1 then WStopped 19 else WExited 42)"
      "os_waitpid os_grant (tick w1 + 1 + 1) 7 WUNTRACED = Inr (WExited 42)"
      "WIFEXITED (WExited 42) \<or> WIFSIGNALED (WExited 42)"
      by (simp_all add: os_grant_def)
    from lsh_launch_returns [OF this, of "[''ls'']"] show ?thesis by blast
  qed
  ultimately obtain w2 where ex1: "lsh_execute os_grant [''ls''] w1 = Some (Ret 1, w2)"
    and in2: "w_stdin w2 = ''exit'' @ [newline]"
    using in1 by auto
  have step1: "lsh_loop os_grant ?w0 = lsh_loop os_grant w2"
    using lsh_loop_step [OF rc1 ex1] by simp
  have l2: "takeWhile (\<lambda>c. c \<noteq> newline) (w_stdin w2) = ''exit''"
    unfolding in2 using takeWhile_line [OF nl(2), of "[]"] by simp
  have "length (takeWhile (\<lambda>c. c \<noteq> newline) (w_stdin w2)) + LSH_RL_BUFSIZE \<le> INT_MAX"
    unfolding l2 by (simp add: LSH_RL_BUFSIZE_def INT_MAX_def)
  from read_command_ok [OF os_grant_alloc this]
  obtain w3 where rc2: "read_command os_grant w2 = (Ret [''exit''], w3)"
    unfolding l2 by (auto simp: NUL_def spec_tokens_def spec_delim_def)
  have "lsh_loop os_grant w2 = Some (Ret (), w3)"
    using lsh_loop_step [OF rc2 lsh_execute_exit [of os_grant "[]" w3]] by simp
  with step1 show ?thesis by (simp add: main_def)
qed

text \<open>Two turns that end with the failure code: on end of input, when the allocation of
  the Tokenizer fails; and the line \<open>nosuch\<close> read in a process for which \<open>fork\<close> returns 0.\<close>

lemma tokenizer_malloc_refused_turn:
  "read_command os_once world0 =
     (ProcExit EXIT_FAILURE,
      world0\<lparr>w_stdout := ''> '', w_stderr := ''lsh: allocation error'' @ [newline],
             w_trace := [EvAlloc 1024, EvAlloc 512]\<rparr>)"
proof -
  let ?w0 = "print_out ''> '' world0"
  let ?w1 = "log_event (EvAlloc 1024) ?w0"
  let ?buffer = "replicate LSH_RL_BUFSIZE Uninit :: char cell list"
  have m: "malloc os_once LSH_RL_BUFSIZE sizeof_char ?w0 = (Some ?buffer, ?w1)"
    by (simp add: malloc_def os_once_def tick_def world0_def print_out_def
        LSH_RL_BUFSIZE_def sizeof_char_def)
  have b: "?buffer = Uninit # replicate 1023 Uninit"
    by (simp add: LSH_RL_BUFSIZE_def eval_nat_numeral)
  have "getchar ?w1 = (None, ?w1)"
    by (simp add: getchar_def log_event_def print_out_def world0_def)
  then have "read_loop os_once LSH_RL_BUFSIZE 0 ?buffer ?w1 = (Ret (Val NUL # replicate 1023 Uninit), ?w1)"
    unfolding b by (subst read_loop.simps) (simp add: store_def)
  with m have rl: "lsh_read_line os_once ?w0 = (Ret (Val NUL # replicate 1023 Uninit), ?w1)"
    by (simp add: lsh_read_line_def)
  have sl: "lsh_split_line os_once [] ?w1 =
      (ProcExit EXIT_FAILURE, alloc_error (log_event (EvAlloc 512) ?w1))"
    by (simp add: lsh_split_line_def malloc_def os_once_def tick_def log_event_def
        LSH_TOK_BUFSIZE_def sizeof_ptr_def)
  have "read_command os_once world0 =
      (ProcExit EXIT_FAILURE, alloc_error (log_event (EvAlloc 512) ?w1))"
    using rl sl by (simp add: read_command_def)
  then show ?thesis
    by (simp add: alloc_error_def print_err_def log_event_def print_out_def world0_def)
qed

lemma child_turn:
  "\<exists>w1. read_command os_child (world0\<lparr>w_stdin := ''nosuch'' @ [newline]\<rparr>) = (Ret [''nosuch''], w1)"
proof -
  let ?w0 = "world0\<lparr>w_stdin := ''nosuch'' @ [newline]\<rparr>"
  have al: "\<forall>t n. os_alloc os_child t n" by (simp add: os_child_def os_grant_def)
  have nl: "newline \<notin> set ''nosuch''" by (simp add: newline_def)
  have l1: "takeWhile (\<lambda>c. c \<noteq> newline) (w_stdin ?w0) = ''nosuch''"
    using takeWhile_line [OF nl, of "[]"] by simp
  have "length (takeWhile (\<lambda>c. c \<noteq> newline) (w_stdin ?w0)) + LSH_RL_BUFSIZE \<le> INT_MAX"
    unfolding l1 by (simp add: LSH_RL_BUFSIZE_def INT_MAX_def)
  from read_command_ok [OF al this]
  show ?thesis
    unfolding l1 by (auto simp: NUL_def spec_tokens_def spec_delim_def)
qed

theorem main_exit_code_witness:
  "(\<forall>t n. os_alloc os_grant t n) \<and> (\<forall>t. os_fork os_grant t \<noteq> Inr 0)
   \<and> os_waitpid os_grant 2 7 WUNTRACED = Inr (WExited 42)
   \<and> (\<exists>out w'. main os_grant (world0\<lparr>w_stdin := ''ls'' @ [newline] @ ''exit'' @ [newline]\<rparr>)
         = Some (out, w') \<and> exit_code out = Some EXIT_SUCCESS)
   \<and> fatal os_once 1 (EvAlloc 512)
   \<and> (\<exists>w'. main os_once world0 = Some (ProcExit EXIT_FAILURE, w')
         \<and> w_trace w' = [EvAlloc 1024, EvAlloc 512]
         \<and> (\<exists>evs n. w_trace w' = w_trace world0 @ evs \<and> last evs = EvAlloc n
               \<and> \<not> os_alloc os_once (tick world0 + length evs - 1) n))
   \<and> (\<exists>w1. read_command os_child (world0\<lparr>w_stdin := ''nosuch'' @ [newline]\<rparr>)
               = (Ret [''nosuch''], w1)
         \<and> os_fork os_child (tick w1) = Inr 0
         \<and> os_execvp os_child (tick w1 + 1) (Some ''nosuch'') [''nosuch''] = Some 2)
   \<and> (\<exists>w'. main os_child (world0\<lparr>w_stdin := ''nosuch'' @ [newline]\<rparr>)
               = Some (ProcExit EXIT_FAILURE, w')
         \<and> (\<exists>evs. w_trace w' = w_trace (world0\<lparr>w_stdin := ''nosuch'' @ [newline]\<rparr>) @ evs
               \<and> evs \<noteq> []
               \<and> fatal os_child (tick (world0\<lparr>w_stdin := ''nosuch'' @ [newline]\<rparr>) + length evs - 1)
                    (last evs)))"
proof -
  from two_commands_run obtain w' where
    m: "main os_grant (world0\<lparr>w_stdin := ''ls'' @ [newline] @ ''exit'' @ [newline]\<rparr>)
          = Some (Ret EXIT_SUCCESS, w')" ..
  have g: "(\<forall>t n. os_alloc os_grant t n) \<and> (\<forall>t. os_fork os_grant t \<noteq> Inr 0)"
    "os_waitpid os_grant 2 7 WUNTRACED = Inr (WExited 42)"
    by (simp_all add: os_grant_def)
  have e: "exit_code (Ret EXIT_SUCCESS) = Some EXIT_SUCCESS" by simp
  from main_exit_code [of os_grant "world0\<lparr>w_stdin := ''ls'' @ [newline] @ ''exit'' @ [newline]\<rparr>"
      "Ret EXIT_SUCCESS" w' EXIT_SUCCESS world0 "[]" "[]" world0 0] m g e
  have "EXIT_SUCCESS = EXIT_SUCCESS \<and> exit_code (Ret EXIT_SUCCESS) = Some EXIT_SUCCESS"
    by simp
  with m have first: "\<exists>out w'.
      main os_grant (world0\<lparr>w_stdin := ''ls'' @ [newline] @ ''exit'' @ [newline]\<rparr>) = Some (out, w')
      \<and> exit_code out = Some EXIT_SUCCESS"
    by blast
  let ?w2 = "world0\<lparr>w_stdout := ''> '', w_stderr := ''lsh: allocation error'' @ [newline],
                  w_trace := [EvAlloc 1024, EvAlloc 512]\<rparr>"
  note rc = tokenizer_malloc_refused_turn
  have f: "fatal os_once 1 (EvAlloc 512)" by (simp add: os_once_def)
  from main_exit_code [of os_once world0 "Ret 0" world0 0 world0 "[]" "[]" world0 0] obtain evs where
    evs: "w_trace (snd (read_command os_once world0)) = w_trace world0 @ evs"
    "\<forall>j<length evs. fatal os_once (tick world0 + j) (evs ! j) \<longrightarrow>
        main os_once world0 = Some (ProcExit EXIT_FAILURE, snd (read_command os_once world0))"
    by blast
  from evs(1) have "evs = [EvAlloc 1024, EvAlloc 512]"
    unfolding rc by (simp add: world0_def)
  then have "1 < length evs" "evs ! 1 = EvAlloc 512" by simp_all
  with evs(2) have "fatal os_once (tick world0 + 1) (EvAlloc 512) \<longrightarrow>
        main os_once world0 = Some (ProcExit EXIT_FAILURE, snd (read_command os_once world0))"
    by metis
  moreover have "tick world0 + 1 = 1" by (simp add: tick_def world0_def)
  ultimately have m2: "main os_once world0 = Some (ProcExit EXIT_FAILURE, ?w2)"
    using f unfolding rc by simp
  have own: "(\<forall>t. os_fork os_once t \<noteq> Inr 0)
      \<and> exit_code (ProcExit EXIT_FAILURE) = Some EXIT_FAILURE"
    by (simp add: os_once_def os_grant_def)
  from main_exit_code [of os_once world0 "ProcExit EXIT_FAILURE" ?w2 EXIT_FAILURE world0 "[]" "[]"
      world0 0] m2 own
  have "\<exists>evs n. w_trace ?w2 = w_trace world0 @ evs \<and> last evs = EvAlloc n
               \<and> \<not> os_alloc os_once (tick world0 + length evs - 1) n"
    by blast
  moreover have "w_trace ?w2 = [EvAlloc 1024, EvAlloc 512]"
    by (simp add: world0_def)
  ultimately have second: "\<exists>w'. main os_once world0 = Some (ProcExit EXIT_FAILURE, w')
         \<and> w_trace w' = [EvAlloc 1024, EvAlloc 512]
         \<and> (\<exists>evs n. w_trace w' = w_trace world0 @ evs \<and> last evs = EvAlloc n
               \<and> \<not> os_alloc os_once (tick world0 + length evs - 1) n)"
    using m2 by blast
  let ?w0 = "world0\<lparr>w_stdin := ''nosuch'' @ [newline]\<rparr>"
  from child_turn obtain w1 where
    rc3: "read_command os_child ?w0 = (Ret [''nosuch''], w1)" ..
  have c: "''nosuch'' \<notin> set builtin_str" "os_fork os_child (tick w1) = Inr 0"
    "os_execvp os_child (tick w1 + 1) (Some ''nosuch'') [''nosuch''] = Some 2"
    by (simp_all add: builtin_str_def os_child_def)
  with rc3 have third: "\<exists>w1. read_command os_child ?w0 = (Ret [''nosuch''], w1)
         \<and> os_fork os_child (tick w1) = Inr 0
         \<and> os_execvp os_child (tick w1 + 1) (Some ''nosuch'') [''nosuch''] = Some 2"
    by blast
  from main_exit_code [of os_child world0 "Ret 0" world0 0 ?w0 "''nosuch''" "[]" w1 2] rc3 c
  obtain w3 where m3: "main os_child ?w0 = Some (ProcExit EXIT_FAILURE, w3)"
    by blast
  have "exit_code (ProcExit EXIT_FAILURE) = Some EXIT_FAILURE" by simp
  with main_exit_code [of os_child ?w0 "ProcExit EXIT_FAILURE" w3 EXIT_FAILURE world0 "[]" "[]"
      world0 0] m3
  have "\<exists>evs. w_trace w3 = w_trace ?w0 @ evs \<and> evs \<noteq> []
               \<and> fatal os_child (tick ?w0 + length evs - 1) (last evs)"
    by blast
  with m3 have fourth: "\<exists>w'. main os_child ?w0 = Some (ProcExit EXIT_FAILURE, w')
         \<and> (\<exists>evs. w_trace w' = w_trace ?w0 @ evs \<and> evs \<noteq> []
               \<and> fatal os_child (tick ?w0 + length evs - 1) (last evs))"
    by blast
  from g first f second third fourth show ?thesis by blast
qed

text \<open>Claim C8 as it is stated fails: when the first allocation of the Line Reader fails,
  the interpreter's own process ends with the failure code, here with \<open>exit\<close> typed on
  standard input and no command run at all.\<close>

theorem main_exit_code_counterexample:
  "main os_refuse (world0\<lparr>w_stdin := ''exit'' @ [newline]\<rparr>) =
     Some (ProcExit EXIT_FAILURE,
           world0\<lparr>w_stdin := ''exit'' @ [newline], w_stdout := ''> '',
                  w_stderr := ''lsh: allocation error'' @ [newline],
                  w_trace := [EvAlloc 1024]\<rparr>)
   \<and> exit_code (ProcExit EXIT_FAILURE) = Some 1 \<and> EXIT_SUCCESS = 0"
proof -
  let ?w = "world0\<lparr>w_stdin := ''exit'' @ [newline]\<rparr>"
  have "read_command os_refuse ?w =
      (ProcExit EXIT_FAILURE,
       world0\<lparr>w_stdin := ''exit'' @ [newline], w_stdout := ''> '',
              w_stderr := ''lsh: allocation error'' @ [newline],
              w_trace := [EvAlloc 1024]\<rparr>)"
    by (simp add: read_command_def lsh_read_line_def malloc_def os_refuse_def world0_def
        print_out_def alloc_error_def print_err_def log_event_def tick_def
        LSH_RL_BUFSIZE_def sizeof_char_def)
  then have "loop_body os_refuse ?w =
      Some (ProcExit EXIT_FAILURE,
       world0\<lparr>w_stdin := ''exit'' @ [newline], w_stdout := ''> '',
              w_stderr := ''lsh: allocation error'' @ [newline],
              w_trace := [EvAlloc 1024]\<rparr>)"
    by (simp add: loop_body_def)
  then have "lsh_loop os_refuse ?w =
      Some (ProcExit EXIT_FAILURE,
       world0\<lparr>w_stdin := ''exit'' @ [newline], w_stdout := ''> '',
              w_stderr := ''lsh: allocation error'' @ [newline],
              w_trace := [EvAlloc 1024]\<rparr>)"
    by (subst lsh_loop.simps) simp
  then show ?thesis
    by (simp add: main_def EXIT_FAILURE_def EXIT_SUCCESS_def)
qed

end
